theory Spec2Isabelle
  imports Main "HOL-Library.Word"
begin

section \<open>Engine session of \<open>Aiexecutables/mypy.py\<close>\<close>

text \<open>
  The script starts an engine process, drains its output on a daemon thread into a
  queue, sends a fixed board position and \<open>go\<close>, polls the queue until a line starts
  with \<open>bestmove\<close>, then sends \<open>quit\<close> and waits for the process.

  A Python \<open>str\<close> is a list of Unicode code points, \<open>bytes\<close> a list of 8-bit words.
  The two threads are run by an explicit schedule, one statement group per step; every
  effect (pipe reads and writes, queue operations, prints, the process wait) is appended
  to a trace. The engine is opaque: its whole output is a byte string fixed in advance,
  together with whether it closes the stream after it and whether it ever exits.
  The console is a parameter too: which texts the encoding of \<open>sys.stdout\<close> can encode.
  Launching the process and a pipe broken by a dead engine are outside the model.
\<close>

subsection \<open>Text and bytes\<close>

type_synonym byte = "8 word"
type_synonym str = "nat list"

datatype error = UnicodeDecodeError | UnicodeEncodeError

definition str_of :: "string \<Rightarrow> str" where
  "str_of cs = map of_char cs"

definition bytes_of :: "string \<Rightarrow> byte list" where
  "bytes_of cs = map of_char cs"

text \<open>
  \<open>str.encode("utf-8")\<close>, one code point: one to four bytes; a surrogate
  (\<open>U+D800\<close> to \<open>U+DFFF\<close>) has no encoding and raises \<open>UnicodeEncodeError\<close>.
\<close>

definition encode_cp :: "nat \<Rightarrow> byte list option" where
  "encode_cp c =
     (if c < 0x80 then Some [of_nat c]
      else if c < 0x800 then Some [of_nat (0xC0 + c div 64), of_nat (0x80 + c mod 64)]
      else if 0xD800 \<le> c \<and> c < 0xE000 then None
      else if c < 0x10000 then
        Some [of_nat (0xE0 + c div 4096), of_nat (0x80 + c div 64 mod 64), of_nat (0x80 + c mod 64)]
      else if c < 0x110000 then
        Some [of_nat (0xF0 + c div 262144), of_nat (0x80 + c div 4096 mod 64),
              of_nat (0x80 + c div 64 mod 64), of_nat (0x80 + c mod 64)]
      else None)"

fun utf8_encode :: "str \<Rightarrow> error + byte list" where
  "utf8_encode [] = Inr []"
| "utf8_encode (c # cs) =
     (case encode_cp c of
        None \<Rightarrow> Inl UnicodeEncodeError
      | Some bs \<Rightarrow> (case utf8_encode cs of Inl e \<Rightarrow> Inl e | Inr rest \<Rightarrow> Inr (bs @ rest)))"

text \<open>
  \<open>bytes.decode("utf-8")\<close> in its default strict mode accepts exactly the well-formed
  sequences: no stray continuation byte, no overlong form (\<open>C0\<close>, \<open>C1\<close>, \<open>E0 80..9F\<close>,
  \<open>F0 80..8F\<close>), no surrogate (\<open>ED A0..BF\<close>), nothing above \<open>U+10FFFF\<close>, no
  truncated sequence. \<open>decode_cp b bs\<close> decodes the code point that starts with the
  byte \<open>b\<close> and returns it with the number of bytes of \<open>bs\<close> it used.
\<close>

definition cont :: "byte \<Rightarrow> bool" where
  "cont b = (0x80 \<le> unat b \<and> unat b \<le> 0xBF)"

definition tail :: "byte \<Rightarrow> nat" where
  "tail b = unat b - 0x80"

definition decode_cp :: "byte \<Rightarrow> byte list \<Rightarrow> (nat \<times> nat) option" where
  "decode_cp b bs =
     (let n = unat b in
      if n < 0x80 then Some (n, 0)
      else if 0xC2 \<le> n \<and> n \<le> 0xDF then
        (case bs of
           b1 # r \<Rightarrow> if cont b1 then Some ((n - 0xC0) * 64 + tail b1, 1) else None
         | _ \<Rightarrow> None)
      else if 0xE0 \<le> n \<and> n \<le> 0xEF then
        (case bs of
           b1 # b2 # r \<Rightarrow>
             if cont b1 \<and> cont b2 \<and> (n = 0xE0 \<longrightarrow> 0xA0 \<le> unat b1)
                \<and> (n = 0xED \<longrightarrow> unat b1 \<le> 0x9F)
             then Some ((n - 0xE0) * 4096 + tail b1 * 64 + tail b2, 2)
             else None
         | _ \<Rightarrow> None)
      else if 0xF0 \<le> n \<and> n \<le> 0xF4 then
        (case bs of
           b1 # b2 # b3 # r \<Rightarrow>
             if cont b1 \<and> cont b2 \<and> cont b3 \<and> (n = 0xF0 \<longrightarrow> 0x90 \<le> unat b1)
                \<and> (n = 0xF4 \<longrightarrow> unat b1 \<le> 0x8F)
             then Some ((n - 0xF0) * 262144 + tail b1 * 4096 + tail b2 * 64 + tail b3, 3)
             else None
         | _ \<Rightarrow> None)
      else None)"

fun utf8_decode :: "byte list \<Rightarrow> error + str" where
  "utf8_decode [] = Inr []"
| "utf8_decode (b # bs) =
     (case decode_cp b bs of
        None \<Rightarrow> Inl UnicodeDecodeError
      | Some (c, k) \<Rightarrow>
          (case utf8_decode (drop k bs) of Inl e \<Rightarrow> Inl e | Inr t \<Rightarrow> Inr (c # t)))"

text \<open>\<open>str.rstrip("\n")\<close> removes every trailing newline; \<open>str.startswith\<close> compares a prefix.\<close>

definition rstrip :: "str \<Rightarrow> str" where
  "rstrip t = rev (dropWhile (\<lambda>c. c = 10) (rev t))"

definition startswith :: "str \<Rightarrow> str \<Rightarrow> bool" where
  "startswith t p = (take (length p) t = p)"

text \<open>
  \<open>stream.readline()\<close> on the binary pipe holding \<open>buf\<close>: the bytes up to and including
  the first \<open>\n\<close>; without one, the rest of the stream once the engine has closed it (the
  empty \<open>b""\<close> at the very end), and no return at all while the engine keeps it open.
\<close>

definition readline :: "byte list \<Rightarrow> bool \<Rightarrow> (byte list \<times> byte list) option" where
  "readline buf eof =
     (case dropWhile (\<lambda>b. b \<noteq> 0x0A) buf of
        [] \<Rightarrow> if eof then Some (buf, []) else None
      | nl # rest \<Rightarrow> Some (takeWhile (\<lambda>b. b \<noteq> 0x0A) buf @ [nl], rest))"

subsection \<open>The session\<close>

text \<open>
  The effects, as they enter the trace: \<open>Readline l\<close> is a call of \<open>stream.readline()\<close>
  that returned the non-empty line \<open>l\<close>, \<open>Put t\<close> is \<open>q.put(t)\<close>, \<open>Close\<close> is
  \<open>stream.close()\<close>; \<open>Write d\<close> and \<open>Flush\<close> are the calls on \<open>engine.stdin\<close>; \<open>Get t\<close> is a
  \<open>q.get(timeout=0.1)\<close> that returned \<open>t\<close> and \<open>Empty\<close> one that raised \<open>queue.Empty\<close>;
  \<open>Print t\<close> is a \<open>print\<close> that wrote the text \<open>t\<close>, newline included; \<open>Wait\<close> is the call
  of \<open>engine.wait()\<close>.
\<close>

datatype event =
    Readline "byte list"
  | Put str
  | Close
  | Write "byte list"
  | Flush
  | Get str
  | Empty
  | Print str
  | Wait

text \<open>
  The drainer thread is in the loop of \<open>enqueue_output\<close>, or dead from an exception, or
  has returned after closing the stream. The main thread is at one of these places:
  \<open>Sending cmds\<close>, with the commands in \<open>cmds\<close> still to send before the assignment
  \<open>bestmove = None\<close>; \<open>WaitLoop\<close>, at the head of the \<open>while True\<close> loop; \<open>Report\<close>, at the
  final \<open>print\<close>; \<open>Shutdown\<close>, at \<open>send("quit")\<close>; \<open>Reap\<close>, at \<open>engine.wait()\<close>; \<open>Blocked\<close>,
  inside that call; \<open>Exited\<close>, past the end of the script; \<open>Aborted\<close>, ended by an exception.
\<close>

datatype reader_state = Draining | Raised error | Returned

datatype main_pc =
    Sending "str list"
  | WaitLoop
  | Report
  | Shutdown
  | Reap
  | Blocked
  | Exited
  | Aborted error

record session =
  pipe :: "byte list"
  pipe_eof :: bool
  exit_status :: "int option"
  stdout_ok :: "str \<Rightarrow> bool"
  reader :: reader_state
  q :: "str list"
  pc :: main_pc
  bestmove :: "str option"
  trace :: "event list"

text \<open>
  \<open>pipe\<close> is the engine output not yet read and \<open>pipe_eof\<close> tells whether the engine
  closes the stream after it; \<open>exit_status\<close> is the return code \<open>engine.wait()\<close> would
  get, \<open>None\<close> for an engine that never exits. \<open>stdout_ok t\<close> tells whether the encoding of
  \<open>sys.stdout\<close> can encode the text \<open>t\<close>: \<open>print\<close> raises \<open>UnicodeEncodeError\<close> on a text it
  cannot. \<open>reader\<close> is the state of the thread
  running \<open>enqueue_output\<close>, \<open>q\<close> the \<open>queue.Queue\<close> (put at the end, get at the head),
  \<open>pc\<close> the position of the main thread, \<open>trace\<close> the effects performed so far.
\<close>

definition position_cmds :: "str list" where
  "position_cmds = map str_of
     [''position 1w'',
      ''setup'',
      ''  r r r r r r r r'',
      ''  h c d m e d c h'',
      ''  . . . . . . . .'',
      ''  . . . . . . . .'',
      ''  . . . . . . . .'',
      ''  . . . . . . . .'',
      ''  H C D M E D C H'',
      ''  R R R R R R R R'',
      ''end'']"

definition script :: "str list" where
  "script = position_cmds @ [str_of ''go'']"

definition init :: "byte list \<Rightarrow> bool \<Rightarrow> int option \<Rightarrow> (str \<Rightarrow> bool) \<Rightarrow> session" where
  "init out eof rc ok =
     \<lparr>pipe = out, pipe_eof = eof, exit_status = rc, stdout_ok = ok, reader = Draining, q = [],
      pc = Sending script, bestmove = None, trace = []\<rparr>"

text \<open>\<open>send(cmd)\<close>: one \<open>write\<close> of the encoded \<open>cmd + "\n"\<close>, then \<open>flush\<close>.\<close>

definition send :: "str \<Rightarrow> session \<Rightarrow> error + session" where
  "send cmd s =
     (case utf8_encode (cmd @ [10]) of
        Inl e \<Rightarrow> Inl e
      | Inr data \<Rightarrow> Inr (s\<lparr>trace := trace s @ [Write data, Flush]\<rparr>))"

text \<open>\<open>line.decode("utf-8").rstrip("\n")\<close>, the value \<open>enqueue_output\<close> puts on the queue.\<close>

definition decoded :: "byte list \<Rightarrow> error + str" where
  "decoded line = (case utf8_decode line of Inl e \<Rightarrow> Inl e | Inr t \<Rightarrow> Inr (rstrip t))"

text \<open>
  Two consoles: one whose encoding is UTF-8, which encodes every text that has a UTF-8
  encoding, and one whose encoding is ASCII.
\<close>

definition utf8_console :: "str \<Rightarrow> bool" where
  "utf8_console t = (\<forall>c \<in> set t. encode_cp c \<noteq> None)"

definition ascii_console :: "str \<Rightarrow> bool" where
  "ascii_console t = (\<forall>c \<in> set t. c < 128)"

definition terminated :: "main_pc \<Rightarrow> bool" where
  "terminated p = (case p of Exited \<Rightarrow> True | Aborted e \<Rightarrow> True | _ \<Rightarrow> False)"

text \<open>
  One iteration of the loop of \<open>enqueue_output\<close>, or the \<open>stream.close()\<close> after it.
  The thread is a daemon: it runs no further once the main thread has ended. A line that
  does not decode raises out of the function, past \<open>stream.close()\<close>.
\<close>

definition enqueue_output_step :: "session \<Rightarrow> session" where
  "enqueue_output_step s =
     (if reader s \<noteq> Draining \<or> terminated (pc s) then s
      else
        (case readline (pipe s) (pipe_eof s) of
           None \<Rightarrow> s
         | Some (line, rest) \<Rightarrow>
             if line = [] then s\<lparr>reader := Returned, trace := trace s @ [Close]\<rparr>
             else
               (case decoded line of
                  Inl e \<Rightarrow> s\<lparr>pipe := rest, reader := Raised e, trace := trace s @ [Readline line]\<rparr>
                | Inr text \<Rightarrow>
                    s\<lparr>pipe := rest, q := q s @ [text],
                      trace := trace s @ [Readline line, Put text]\<rparr>)))"

definition py_str :: "str option \<Rightarrow> str" where
  "py_str v = (case v of None \<Rightarrow> str_of ''None'' | Some t \<Rightarrow> t)"

text \<open>
  One statement of the main thread. In \<open>WaitLoop\<close> a step is one pass through the loop
  body: \<open>q.get(timeout=0.1)\<close> raises \<open>queue.Empty\<close> on an empty queue and the loop
  continues; otherwise the line is printed and tested.

  \<open>print(a, b)\<close> writes \<open>a\<close>, a space, \<open>b\<close> and a newline to \<open>sys.stdout\<close>, one after the
  other. The literal pieces are ASCII, which every text encoding of Python encodes; the
  line that came from the engine is refused by a console whose encoding lacks one of
  its characters. Then \<open>print\<close> raises \<open>UnicodeEncodeError\<close> with the pieces before the line
  written, nothing catches it, and the main thread ends there: in the loop, with the
  line dequeued but neither echoed nor tested.
\<close>

definition main_step :: "session \<Rightarrow> session" where
  "main_step s =
     (case pc s of
        Sending [] \<Rightarrow> s\<lparr>pc := WaitLoop, bestmove := None\<rparr>
      | Sending (cmd # cmds) \<Rightarrow>
          (case send cmd s of
             Inl e \<Rightarrow> s\<lparr>pc := Aborted e\<rparr>
           | Inr s' \<Rightarrow> s'\<lparr>pc := Sending cmds\<rparr>)
      | WaitLoop \<Rightarrow>
          (case q s of
             [] \<Rightarrow> s\<lparr>trace := trace s @ [Empty]\<rparr>
           | line # rest \<Rightarrow>
               if \<not> stdout_ok s line
               then s\<lparr>q := rest, pc := Aborted UnicodeEncodeError,
                      trace := trace s @ [Get line, Print (str_of ''ENGINE: '')]\<rparr>
               else
                 (let s' = s\<lparr>q := rest,
                              trace := trace s @ [Get line, Print (str_of ''ENGINE: '' @ line @ [10])]\<rparr>
                  in if startswith line (str_of ''bestmove'')
                     then s'\<lparr>pc := Report, bestmove := Some line\<rparr>
                     else s'))
      | Report \<Rightarrow>
          if \<not> stdout_ok s (py_str (bestmove s))
          then s\<lparr>pc := Aborted UnicodeEncodeError,
                 trace := trace s @ [Print ([10] @ str_of ''Final engine move: '')]\<rparr>
          else
            s\<lparr>pc := Shutdown,
              trace := trace s @
                [Print ([10] @ str_of ''Final engine move: '' @ py_str (bestmove s) @ [10])]\<rparr>
      | Shutdown \<Rightarrow>
          (case send (str_of ''quit'') s of
             Inl e \<Rightarrow> s\<lparr>pc := Aborted e\<rparr>
           | Inr s' \<Rightarrow> s'\<lparr>pc := Reap\<rparr>)
      | Reap \<Rightarrow> s\<lparr>pc := Blocked, trace := trace s @ [Wait]\<rparr>
      | Blocked \<Rightarrow> (case exit_status s of None \<Rightarrow> s | Some rc \<Rightarrow> s\<lparr>pc := Exited\<rparr>)
      | Exited \<Rightarrow> s
      | Aborted e \<Rightarrow> s)"

text \<open>
  A schedule is the list of the threads that move, in order; \<open>run\<close> makes those moves. A
  thread that cannot move (blocked in \<open>readline\<close> or in \<open>engine.wait()\<close>, or ended) leaves the
  state as it is. What holds of \<open>run sched (init out eof rc ok)\<close> for every \<open>sched\<close> holds at
  every moment of every execution of the script.
\<close>

datatype thread = Main | Drainer

definition step :: "thread \<Rightarrow> session \<Rightarrow> session" where
  "step t s = (case t of Main \<Rightarrow> main_step s | Drainer \<Rightarrow> enqueue_output_step s)"

definition run :: "thread list \<Rightarrow> session \<Rightarrow> session" where
  "run sched s = fold step sched s"

subsection \<open>Projections of the trace\<close>

definition reads :: "event list \<Rightarrow> byte list list" where
  "reads es = concat (map (\<lambda>e. case e of Readline l \<Rightarrow> [l] | _ \<Rightarrow> []) es)"

definition puts :: "event list \<Rightarrow> str list" where
  "puts es = concat (map (\<lambda>e. case e of Put l \<Rightarrow> [l] | _ \<Rightarrow> []) es)"

definition gets :: "event list \<Rightarrow> str list" where
  "gets es = concat (map (\<lambda>e. case e of Get l \<Rightarrow> [l] | _ \<Rightarrow> []) es)"

definition writes :: "event list \<Rightarrow> byte list list" where
  "writes es = concat (map (\<lambda>e. case e of Write d \<Rightarrow> [d] | _ \<Rightarrow> []) es)"

definition stdin_calls :: "event list \<Rightarrow> event list" where
  "stdin_calls es = filter (\<lambda>e. case e of Write d \<Rightarrow> True | Flush \<Rightarrow> True | _ \<Rightarrow> False) es"

definition main_io :: "event list \<Rightarrow> event list" where
  "main_io es =
     filter (\<lambda>e. case e of Readline l \<Rightarrow> False | Put l \<Rightarrow> False | Close \<Rightarrow> False
                         | Empty \<Rightarrow> False | _ \<Rightarrow> True) es"

subsection \<open>What the main thread has done, by program position\<close>

text \<open>
  \<open>main_io\<close> keeps the events of the main thread other than the polls that timed out.
  \<open>main_inv\<close> says what they are at each position: the calls \<open>sent\<close> for the commands sent
  so far, then for each line dequeued the pair \<open>echoes\<close> of its \<open>Get\<close> and its print, then the
  final print, the calls for \<open>quit\<close> and the wait; inside the loop no dequeued line starts
  with \<open>bestmove\<close>, and past it the last one does, is the only one, and is the value of
  \<open>bestmove\<close> (\<open>found\<close>). The only exception that ends the script is the one \<open>print\<close> raises in
  the loop, on a dequeued line that the console cannot encode, after the text \<open>ENGINE: \<close>.
\<close>

definition is_best :: "str \<Rightarrow> bool" where
  "is_best line = startswith line (str_of ''bestmove'')"

definition ascii_bytes :: "str \<Rightarrow> byte list" where
  "ascii_bytes t = map of_nat t"

definition sent :: "str list \<Rightarrow> event list" where
  "sent cmds = concat (map (\<lambda>cmd. [Write (ascii_bytes cmd @ [0x0A]), Flush]) cmds)"

definition echoes :: "str list \<Rightarrow> event list" where
  "echoes ls = concat (map (\<lambda>l. [Get l, Print (str_of ''ENGINE: '' @ l @ [10])]) ls)"

definition final_line :: "str \<Rightarrow> str" where
  "final_line b = [10] @ str_of ''Final engine move: '' @ b @ [10]"

definition found :: "str list \<Rightarrow> str option \<Rightarrow> bool" where
  "found ls bm =
     (ls \<noteq> [] \<and> bm = Some (last ls) \<and> is_best (last ls) \<and> (\<forall>l \<in> set (butlast ls). \<not> is_best l))"

definition main_inv :: "session \<Rightarrow> bool" where
  "main_inv s =
     (case pc s of
        Sending cs \<Rightarrow>
          length cs \<le> 12 \<and> cs = drop (12 - length cs) script
          \<and> main_io (trace s) = sent (take (12 - length cs) script)
      | WaitLoop \<Rightarrow>
          main_io (trace s) = sent script @ echoes (gets (trace s))
          \<and> (\<forall>l \<in> set (gets (trace s)). \<not> is_best l \<and> stdout_ok s l)
      | Report \<Rightarrow>
          main_io (trace s) = sent script @ echoes (gets (trace s))
          \<and> found (gets (trace s)) (bestmove s)
          \<and> (\<forall>l \<in> set (gets (trace s)). stdout_ok s l)
      | Shutdown \<Rightarrow>
          main_io (trace s) =
            sent script @ echoes (gets (trace s)) @ [Print (final_line (last (gets (trace s))))]
          \<and> found (gets (trace s)) (bestmove s)
          \<and> (\<forall>l \<in> set (gets (trace s)). stdout_ok s l)
      | Reap \<Rightarrow>
          main_io (trace s) =
            sent script @ echoes (gets (trace s)) @ [Print (final_line (last (gets (trace s))))]
              @ sent [str_of ''quit'']
          \<and> found (gets (trace s)) (bestmove s)
          \<and> (\<forall>l \<in> set (gets (trace s)). stdout_ok s l)
      | Blocked \<Rightarrow>
          main_io (trace s) =
            sent script @ echoes (gets (trace s)) @ [Print (final_line (last (gets (trace s))))]
              @ sent [str_of ''quit''] @ [Wait]
          \<and> found (gets (trace s)) (bestmove s)
          \<and> (\<forall>l \<in> set (gets (trace s)). stdout_ok s l)
      | Exited \<Rightarrow>
          main_io (trace s) =
            sent script @ echoes (gets (trace s)) @ [Print (final_line (last (gets (trace s))))]
              @ sent [str_of ''quit''] @ [Wait]
          \<and> found (gets (trace s)) (bestmove s)
          \<and> (\<forall>l \<in> set (gets (trace s)). stdout_ok s l)
      | Aborted e \<Rightarrow>
          e = UnicodeEncodeError \<and> gets (trace s) \<noteq> []
          \<and> main_io (trace s) =
              sent script @ echoes (butlast (gets (trace s)))
                @ [Get (last (gets (trace s))), Print (str_of ''ENGINE: '')]
          \<and> (\<forall>l \<in> set (butlast (gets (trace s))). \<not> is_best l \<and> stdout_ok s l)
          \<and> \<not> stdout_ok s (last (gets (trace s))))"

definition all_cmds :: "str list" where
  "all_cmds = script @ [str_of ''quit'']"

definition waiter_events :: "event list \<Rightarrow> event list" where
  "waiter_events es = filter (\<lambda>e. case e of Get l \<Rightarrow> True | Print l \<Rightarrow> True | _ \<Rightarrow> False) es"

text \<open>
  \<open>drainer_inv\<close> relates the lines read to the engine's output and to the lines enqueued;
  \<open>in_order\<close> says that at every moment of a trace the lines dequeued are an initial part of
  the lines enqueued until then.
\<close>

definition drainer_inv :: "byte list \<Rightarrow> session \<Rightarrow> bool" where
  "drainer_inv out s =
     (concat (reads (trace s)) @ pipe s = out
      \<and> (Close \<in> set (trace s)) = (reader s = Returned)
      \<and> (case reader s of
            Raised e \<Rightarrow>
              reads (trace s) \<noteq> []
              \<and> map decoded (butlast (reads (trace s))) = map Inr (puts (trace s))
              \<and> decoded (last (reads (trace s))) = Inl e
          | _ \<Rightarrow> map decoded (reads (trace s)) = map Inr (puts (trace s))))"


subsection \<open>The specification's words\<close>


section \<open>Text and bytes: lemmas\<close>

text \<open>
  The codec on the euro sign, a code point beyond the basic plane and an accented letter,
  and the decoder on ill-formed input: an overlong newline, a surrogate, a code point
  above \<open>U+10FFFF\<close>, a truncated sequence and a stray continuation byte.
\<close>

lemma utf8_encode_examples:
  "utf8_encode [0x20AC, 0x10348, 0xE9] = Inr [0xE2, 0x82, 0xAC, 0xF0, 0x90, 0x8D, 0x88, 0xC3, 0xA9]"
  "utf8_encode [0x61, 0xDFFF] = Inl UnicodeEncodeError"
  by (simp_all add: encode_cp_def)

lemma utf8_decode_examples:
  "utf8_decode [0xE2, 0x82, 0xAC, 0xF0, 0x90, 0x8D, 0x88, 0xC3, 0xA9] = Inr [0x20AC, 0x10348, 0xE9]"
  "utf8_decode [0xC0, 0x8A] = Inl UnicodeDecodeError"
  "utf8_decode [0xED, 0xA0, 0x80] = Inl UnicodeDecodeError"
  "utf8_decode [0xF4, 0x90, 0x80, 0x80] = Inl UnicodeDecodeError"
  "utf8_decode [0xE2, 0x82] = Inl UnicodeDecodeError"
  "utf8_decode [0x80] = Inl UnicodeDecodeError"
  by (simp_all add: decode_cp_def cont_def tail_def)

lemma utf8_encode_append:
  "utf8_encode (xs @ ys) =
     (case utf8_encode xs of
        Inl e \<Rightarrow> Inl e
      | Inr a \<Rightarrow> (case utf8_encode ys of Inl e \<Rightarrow> Inl e | Inr b \<Rightarrow> Inr (a @ b)))"
  by (induction xs) (auto split: option.splits sum.splits)

lemma utf8_encode_ascii:
  "\<forall>c \<in> set cs. (of_char c :: nat) < 128 \<Longrightarrow> utf8_encode (str_of cs) = Inr (bytes_of cs)"
  by (induction cs) (auto simp: str_of_def bytes_of_def encode_cp_def of_nat_of_char)











lemma readline_shape:
  assumes "readline buf eof = Some (line, rest)"
  shows "buf = line @ rest"
    and "0x0A \<notin> set line \<or> (\<exists>pre. line = pre @ [0x0A] \<and> 0x0A \<notin> set pre)"
proof -
  let ?P = "\<lambda>b::byte. b \<noteq> 0x0A"
  show "buf = line @ rest"
  proof (cases "dropWhile ?P buf")
    case Nil
    from assms show ?thesis unfolding readline_def Nil by (simp split: if_splits)
  next
    case (Cons nl r)
    from assms have "line = takeWhile ?P buf @ [nl]" "rest = r" unfolding readline_def Cons by simp_all
    with Cons show ?thesis using takeWhile_dropWhile_id [of ?P buf] by simp
  qed
  show "0x0A \<notin> set line \<or> (\<exists>pre. line = pre @ [0x0A] \<and> 0x0A \<notin> set pre)"
  proof (cases "dropWhile ?P buf")
    case Nil
    then have "\<forall>b \<in> set buf. b \<noteq> 0x0A" by (simp add: dropWhile_eq_Nil_conv)
    moreover from assms have "line = buf" unfolding readline_def Nil by (simp split: if_splits)
    ultimately show ?thesis by auto
  next
    case (Cons nl r)
    then have "nl = 0x0A" using hd_dropWhile [of ?P buf] by auto
    moreover from assms have "line = takeWhile ?P buf @ [nl]" unfolding readline_def Cons by simp
    moreover have "0x0A \<notin> set (takeWhile ?P buf)" by (auto dest: set_takeWhileD)
    ultimately show ?thesis by blast
  qed
qed


section \<open>The session: lemmas\<close>

subsection \<open>Trace projections and schedules\<close>

lemma reads_simps [simp]:
  "reads [] = []" "reads (es @ fs) = reads es @ reads fs"
  "reads (e # es) = (case e of Readline l \<Rightarrow> [l] | _ \<Rightarrow> []) @ reads es"
  by (simp_all add: reads_def)

lemma puts_simps [simp]:
  "puts [] = []" "puts (es @ fs) = puts es @ puts fs"
  "puts (e # es) = (case e of Put l \<Rightarrow> [l] | _ \<Rightarrow> []) @ puts es"
  by (simp_all add: puts_def)

lemma gets_simps [simp]:
  "gets [] = []" "gets (es @ fs) = gets es @ gets fs"
  "gets (e # es) = (case e of Get l \<Rightarrow> [l] | _ \<Rightarrow> []) @ gets es"
  by (simp_all add: gets_def)

lemma writes_simps [simp]:
  "writes [] = []" "writes (es @ fs) = writes es @ writes fs"
  "writes (e # es) = (case e of Write l \<Rightarrow> [l] | _ \<Rightarrow> []) @ writes es"
  by (simp_all add: writes_def)

lemma main_io_simps [simp]:
  "main_io [] = []" "main_io (es @ fs) = main_io es @ main_io fs"
  "main_io (e # es) =
     (case e of Readline l \<Rightarrow> [] | Put l \<Rightarrow> [] | Close \<Rightarrow> [] | Empty \<Rightarrow> [] | _ \<Rightarrow> [e]) @ main_io es"
  by (simp_all add: main_io_def split: event.splits)

lemma stdin_calls_simps [simp]:
  "stdin_calls [] = []" "stdin_calls (es @ fs) = stdin_calls es @ stdin_calls fs"
  "stdin_calls (e # es) = (case e of Write d \<Rightarrow> [e] | Flush \<Rightarrow> [e] | _ \<Rightarrow> []) @ stdin_calls es"
  by (simp_all add: stdin_calls_def split: event.splits)

lemma sent_simps [simp]:
  "sent [] = []" "sent (cs @ ds) = sent cs @ sent ds"
  "sent (c # cs) = Write (ascii_bytes c @ [0x0A]) # Flush # sent cs"
  by (simp_all add: sent_def)

lemma echoes_simps [simp]:
  "echoes [] = []" "echoes (ks @ ls) = echoes ks @ echoes ls"
  "echoes (l # ls) = Get l # Print (str_of ''ENGINE: '' @ l @ [10]) # echoes ls"
  by (simp_all add: echoes_def)

lemma run_simps [simp]:
  "run [] s = s" "run (t # sched) s = run sched (step t s)"
  "run (sched @ sched') s = run sched' (run sched s)"
  by (simp_all add: run_def)

lemma step_simps [simp]:
  "step Main s = main_step s" "step Drainer s = enqueue_output_step s"
  by (simp_all add: step_def)

subsection \<open>One step of the main thread, by position\<close>

lemma main_step_Sending_Nil:
  "pc s = Sending [] \<Longrightarrow> main_step s = s\<lparr>pc := WaitLoop, bestmove := None\<rparr>"
  by (simp add: main_step_def)

lemma main_step_Sending_Cons:
  "pc s = Sending (cmd # cmds) \<Longrightarrow>
   main_step s = (case send cmd s of Inl e \<Rightarrow> s\<lparr>pc := Aborted e\<rparr> | Inr s' \<Rightarrow> s'\<lparr>pc := Sending cmds\<rparr>)"
  by (simp add: main_step_def)

lemma main_step_WaitLoop_Nil:
  "pc s = WaitLoop \<Longrightarrow> q s = [] \<Longrightarrow> main_step s = s\<lparr>trace := trace s @ [Empty]\<rparr>"
  by (simp add: main_step_def)

lemma main_step_WaitLoop_refused:
  "pc s = WaitLoop \<Longrightarrow> q s = line # rest \<Longrightarrow> \<not> stdout_ok s line \<Longrightarrow>
   main_step s =
     s\<lparr>q := rest, pc := Aborted UnicodeEncodeError,
       trace := trace s @ [Get line, Print (str_of ''ENGINE: '')]\<rparr>"
  by (simp add: main_step_def)

lemma main_step_WaitLoop_Cons:
  "pc s = WaitLoop \<Longrightarrow> q s = line # rest \<Longrightarrow> stdout_ok s line \<Longrightarrow>
   main_step s =
     (if is_best line
      then s\<lparr>q := rest, trace := trace s @ [Get line, Print (str_of ''ENGINE: '' @ line @ [10])],
             pc := Report, bestmove := Some line\<rparr>
      else s\<lparr>q := rest, trace := trace s @ [Get line, Print (str_of ''ENGINE: '' @ line @ [10])]\<rparr>)"
  by (simp add: main_step_def is_best_def Let_def)

lemma main_step_Report:
  "pc s = Report \<Longrightarrow> stdout_ok s (py_str (bestmove s)) \<Longrightarrow>
   main_step s = s\<lparr>pc := Shutdown,
     trace := trace s @ [Print ([10] @ str_of ''Final engine move: '' @ py_str (bestmove s) @ [10])]\<rparr>"
  by (simp add: main_step_def)

lemma main_step_Shutdown:
  "pc s = Shutdown \<Longrightarrow>
   main_step s = (case send (str_of ''quit'') s of Inl e \<Rightarrow> s\<lparr>pc := Aborted e\<rparr> | Inr s' \<Rightarrow> s'\<lparr>pc := Reap\<rparr>)"
  by (simp add: main_step_def)

lemma main_step_Reap:
  "pc s = Reap \<Longrightarrow> main_step s = s\<lparr>pc := Blocked, trace := trace s @ [Wait]\<rparr>"
  by (simp add: main_step_def)

lemma main_step_Blocked:
  "pc s = Blocked \<Longrightarrow>
   main_step s = (case exit_status s of None \<Rightarrow> s | Some rc \<Rightarrow> s\<lparr>pc := Exited\<rparr>)"
  by (simp add: main_step_def)

lemma main_step_ended:
  "pc s = Exited \<Longrightarrow> main_step s = s" "pc s = Aborted e \<Longrightarrow> main_step s = s"
  by (simp_all add: main_step_def)

lemma utf8_encode_low:
  "\<forall>c \<in> set t. c < 128 \<Longrightarrow> utf8_encode t = Inr (ascii_bytes t)"
  by (induction t) (auto simp: ascii_bytes_def encode_cp_def)

lemma send_low:
  "\<forall>c \<in> set cmd. c < 128 \<Longrightarrow>
   send cmd s = Inr (s\<lparr>trace := trace s @ [Write (ascii_bytes cmd @ [0x0A]), Flush]\<rparr>)"
  using utf8_encode_low [of "cmd @ [10]"] by (simp add: send_def ascii_bytes_def)

lemma script_low: "\<forall>cmd \<in> set script. \<forall>c \<in> set cmd. c < 128"
  by (simp add: script_def position_cmds_def str_of_def)

lemma quit_low: "\<forall>c \<in> set (str_of ''quit''). c < 128"
  by (simp add: str_of_def)

lemma length_script: "length script = 12"
  by (simp add: script_def position_cmds_def)

subsection \<open>What a step of the drainer leaves alone\<close>

lemma drainer_frame:
  "pc (enqueue_output_step s) = pc s"
  "bestmove (enqueue_output_step s) = bestmove s"
  "exit_status (enqueue_output_step s) = exit_status s"
  "pipe_eof (enqueue_output_step s) = pipe_eof s"
  "main_io (trace (enqueue_output_step s)) = main_io (trace s)"
  "gets (trace (enqueue_output_step s)) = gets (trace s)"
  "stdout_ok (enqueue_output_step s) = stdout_ok s"
  by (simp_all add: enqueue_output_step_def split: option.splits sum.splits)

lemma main_frame:
  "pipe (main_step s) = pipe s"
  "pipe_eof (main_step s) = pipe_eof s"
  "exit_status (main_step s) = exit_status s"
  "reader (main_step s) = reader s"
  "reads (trace (main_step s)) = reads (trace s)"
  "puts (trace (main_step s)) = puts (trace s)"
  "stdout_ok (main_step s) = stdout_ok s"
  by (simp_all add: main_step_def send_def Let_def
        split: main_pc.splits list.splits sum.splits option.splits)

lemma reachable_induct [consumes 0, case_names init main drainer]:
  assumes "P (init out eof rc ok)"
    and "\<And>s. P s \<Longrightarrow> P (main_step s)"
    and "\<And>s. P s \<Longrightarrow> P (enqueue_output_step s)"
  shows "P (run sched (init out eof rc ok))"
proof (induction sched rule: rev_induct)
  case Nil
  show ?case using assms(1) by simp
next
  case (snoc t sched)
  then show ?case using assms(2,3) by (cases t) simp_all
qed

lemma found_snoc:
  "\<forall>l \<in> set ls. \<not> is_best l \<Longrightarrow> is_best b \<Longrightarrow> found (ls @ [b]) (Some b)"
  by (simp add: found_def)

lemma gets_main_io [simp]: "gets (main_io es) = gets es"
  by (induction es) (simp_all split: event.splits)

lemma gets_sent [simp]: "gets (sent cs) = []"
  by (induction cs) simp_all

lemma main_inv_init: "main_inv (init out eof rc ok)"
  by (simp add: main_inv_def init_def length_script)

lemma main_inv_drainer: "main_inv s \<Longrightarrow> main_inv (enqueue_output_step s)"
  by (simp add: main_inv_def drainer_frame split: main_pc.splits)

lemma main_inv_main:
  assumes "main_inv s"
  shows "main_inv (main_step s)"
proof (cases "pc s")
  case (Sending cs)
  show ?thesis
  proof (cases cs)
    case Nil
    with Sending assms have io: "main_io (trace s) = sent script"
      by (simp add: main_inv_def length_script)
    then have "gets (main_io (trace s)) = []" by (simp only: gets_sent)
    then have "gets (trace s) = []" by simp
    with Sending Nil io show ?thesis
      by (simp add: main_step_Sending_Nil main_inv_def)
  next
    case (Cons cmd cmds)
    define n where "n = 12 - length cs"
    from assms Sending have len: "length cs \<le> 12" and cs: "cs = drop n script"
      and io: "main_io (trace s) = sent (take n script)"
      by (simp_all add: main_inv_def n_def)
    from Cons len have n: "n < 12" and suc: "12 - length cmds = Suc n" by (simp_all add: n_def)
    from cs Cons have "drop n script = cmd # cmds" by simp
    then have cmd: "cmd = script ! n" and cmds: "drop (Suc n) script = cmds"
      using n by (simp_all add: length_script flip: Cons_nth_drop_Suc)
    from cmd n have "cmd \<in> set script" by (simp add: length_script)
    then have "\<forall>c \<in> set cmd. c < 128" using script_low by blast
    then have step: "main_step s =
        s\<lparr>trace := trace s @ [Write (ascii_bytes cmd @ [0x0A]), Flush], pc := Sending cmds\<rparr>"
      using Sending Cons by (simp add: main_step_Sending_Cons send_low)
    have tk: "take (Suc n) script = take n script @ [cmd]"
      using n cmd by (simp add: take_Suc_conv_app_nth length_script)
    have g1: "length cmds \<le> 12" using Cons len by simp
    have g2: "drop (12 - length cmds) script = cmds" using cmds suc by simp
    have g3: "main_io (trace s) @ [Write (ascii_bytes cmd @ [0x0A]), Flush]
                = sent (take (12 - length cmds) script)"
      using io tk suc by simp
    show ?thesis unfolding step main_inv_def by (simp add: g1 g2 g3)
  qed
next
  case WaitLoop
  show ?thesis
  proof (cases "q s")
    case Nil
    with WaitLoop assms show ?thesis
      by (simp add: main_step_WaitLoop_Nil main_inv_def)
  next
    case (Cons line rest)
    show ?thesis
    proof (cases "stdout_ok s line")
      case True
      with Cons WaitLoop assms show ?thesis
        by (simp add: main_step_WaitLoop_Cons main_inv_def found_snoc)
    next
      case False
      with Cons WaitLoop assms show ?thesis
        by (simp add: main_step_WaitLoop_refused main_inv_def)
    qed
  qed
next
  case Report
  with assms have f: "found (gets (trace s)) (bestmove s)"
    and ok: "\<forall>l \<in> set (gets (trace s)). stdout_ok s l"
    by (simp_all add: main_inv_def)
  from f have "py_str (bestmove s) = last (gets (trace s))" "gets (trace s) \<noteq> []"
    by (simp_all add: found_def py_str_def)
  with ok have "stdout_ok s (py_str (bestmove s))" by simp
  with Report assms show ?thesis
    by (simp add: main_step_Report main_inv_def found_def py_str_def final_line_def)
next
  case Shutdown
  with assms show ?thesis
    by (simp add: main_step_Shutdown main_inv_def send_low quit_low)
next
  case Reap
  with assms show ?thesis
    by (simp add: main_step_Reap main_inv_def)
next
  case Blocked
  with assms show ?thesis
    by (simp add: main_step_Blocked main_inv_def split: option.splits)
next
  case Exited
  with assms show ?thesis by (simp add: main_step_ended)
next
  case (Aborted e)
  with assms show ?thesis by (simp add: main_step_ended)
qed

lemma main_inv_reachable: "main_inv (run sched (init out eof rc ok))"
  by (induction rule: reachable_induct) (simp_all add: main_inv_init main_inv_main main_inv_drainer)

lemma stdout_ok_run: "stdout_ok (run sched s) = stdout_ok s"
  by (induction sched arbitrary: s) (simp_all add: step_def main_frame drainer_frame split: thread.splits)

lemma stdout_ok_reachable: "stdout_ok (run sched (init out eof rc ok)) = ok"
  by (simp add: stdout_ok_run init_def)

lemma aborted_refused:
  assumes "main_inv s" and "pc s = Aborted e"
  shows "e = UnicodeEncodeError \<and> gets (trace s) \<noteq> [] \<and> \<not> stdout_ok s (last (gets (trace s)))
       \<and> (\<forall>l \<in> set (butlast (gets (trace s))). \<not> is_best l \<and> stdout_ok s l)"
  using assms by (simp add: main_inv_def)

lemma waiting_ok:
  assumes "main_inv s" and "\<forall>e. pc s \<noteq> Aborted e"
  shows "\<forall>l \<in> set (gets (trace s)). stdout_ok s l"
proof (cases "pc s")
  case (Sending cs)
  with assms have "main_io (trace s) = sent (take (12 - length cs) script)"
    by (simp add: main_inv_def)
  then have "gets (main_io (trace s)) = []" by (simp only: gets_sent)
  then show ?thesis by simp
qed (use assms in \<open>simp_all add: main_inv_def\<close>)

lemma stdin_calls_main_io [simp]: "stdin_calls (main_io es) = stdin_calls es"
  by (induction es) (simp_all split: event.splits)

lemma stdin_calls_sent [simp]: "stdin_calls (sent cs) = sent cs"
  by (induction cs) simp_all

lemma stdin_calls_echoes [simp]: "stdin_calls (echoes ls) = []"
  by (induction ls) simp_all

lemma writes_stdin_calls [simp]: "writes (stdin_calls es) = writes es"
  by (induction es) (simp_all split: event.splits)

lemma writes_sent: "writes (sent cs) = map (\<lambda>c. ascii_bytes c @ [0x0A]) cs"
  by (induction cs) simp_all

lemma length_all_cmds: "length all_cmds = 13"
  by (simp add: all_cmds_def length_script)

lemma stdin_prefix:
  assumes "main_inv s"
  shows "\<exists>n \<le> 13. stdin_calls (trace s) = sent (take n all_cmds)"
proof -
  have eq: "stdin_calls (trace s) = stdin_calls (main_io (trace s))" by simp
  show ?thesis
  proof (cases "pc s")
    case (Sending cs)
    with assms have "main_io (trace s) = sent (take (12 - length cs) script)"
      by (simp add: main_inv_def)
    then have "stdin_calls (trace s) = sent (take (12 - length cs) all_cmds)"
      unfolding eq by (simp add: all_cmds_def length_script)
    then show ?thesis by (intro exI [of _ "12 - length cs"]) simp
  next
    case WaitLoop
    with assms have "main_io (trace s) = sent script @ echoes (gets (trace s))"
      by (simp add: main_inv_def)
    then have "stdin_calls (trace s) = sent (take 12 all_cmds)"
      unfolding eq by (simp add: all_cmds_def length_script)
    then show ?thesis by (intro exI [of _ 12]) simp
  next
    case Report
    with assms have "main_io (trace s) = sent script @ echoes (gets (trace s))"
      by (simp add: main_inv_def)
    then have "stdin_calls (trace s) = sent (take 12 all_cmds)"
      unfolding eq by (simp add: all_cmds_def length_script)
    then show ?thesis by (intro exI [of _ 12]) simp
  next
    case Shutdown
    with assms have "main_io (trace s) =
        sent script @ echoes (gets (trace s)) @ [Print (final_line (last (gets (trace s))))]"
      by (simp add: main_inv_def)
    then have "stdin_calls (trace s) = sent (take 12 all_cmds)"
      unfolding eq by (simp add: all_cmds_def length_script)
    then show ?thesis by (intro exI [of _ 12]) simp
  next
    case Reap
    with assms have "main_io (trace s) =
        sent script @ echoes (gets (trace s)) @ [Print (final_line (last (gets (trace s))))]
          @ sent [str_of ''quit'']"
      by (simp add: main_inv_def)
    then have "stdin_calls (trace s) = sent (take 13 all_cmds)"
      unfolding eq by (simp add: all_cmds_def length_script)
    then show ?thesis by (intro exI [of _ 13]) simp
  next
    case Blocked
    with assms have "main_io (trace s) =
        sent script @ echoes (gets (trace s)) @ [Print (final_line (last (gets (trace s))))]
          @ sent [str_of ''quit''] @ [Wait]"
      by (simp add: main_inv_def)
    then have "stdin_calls (trace s) = sent (take 13 all_cmds)"
      unfolding eq by (simp add: all_cmds_def length_script)
    then show ?thesis by (intro exI [of _ 13]) simp
  next
    case Exited
    with assms have "main_io (trace s) =
        sent script @ echoes (gets (trace s)) @ [Print (final_line (last (gets (trace s))))]
          @ sent [str_of ''quit''] @ [Wait]"
      by (simp add: main_inv_def)
    then have "stdin_calls (trace s) = sent (take 13 all_cmds)"
      unfolding eq by (simp add: all_cmds_def length_script)
    then show ?thesis by (intro exI [of _ 13]) simp
  next
    case (Aborted e)
    with assms have "main_io (trace s) =
        sent script @ echoes (butlast (gets (trace s)))
          @ [Get (last (gets (trace s))), Print (str_of ''ENGINE: '')]"
      by (simp add: main_inv_def)
    then have "stdin_calls (trace s) = sent (take 12 all_cmds)"
      unfolding eq by (simp add: all_cmds_def length_script)
    then show ?thesis by (intro exI [of _ 12]) simp
  qed
qed

lemma ascii_bytes_str_of [simp]: "ascii_bytes (str_of cs) = bytes_of cs"
  by (simp add: ascii_bytes_def str_of_def bytes_of_def of_nat_of_char)

lemma takeWhile_until: "x \<notin> set xs \<Longrightarrow> takeWhile (\<lambda>e. e \<noteq> x) (xs @ x # ys) = xs"
  by (induction xs) auto

lemma length_position_cmds: "length position_cmds = 11"
  by (simp add: position_cmds_def)

lemma set_sent_take: "set (sent (take n cs)) \<subseteq> set (sent cs)"
proof -
  have "sent cs = sent (take n cs) @ sent (drop n cs)"
    by (simp flip: sent_simps(2))
  then show ?thesis by auto
qed

lemma sent_position_cmds:
  "sent position_cmds =
     concat (map (\<lambda>c. [Write (bytes_of c @ [0x0A]), Flush])
       [''position 1w'', ''setup'',
        ''  r r r r r r r r'', ''  h c d m e d c h'',
        ''  . . . . . . . .'', ''  . . . . . . . .'', ''  . . . . . . . .'', ''  . . . . . . . .'',
        ''  H C D M E D C H'', ''  R R R R R R R R'',
        ''end''])"
  by (simp add: position_cmds_def)

lemma go_not_in_position: "Write (bytes_of ''go'' @ [0x0A]) \<notin> set (sent position_cmds)"
  by (simp add: position_cmds_def ascii_bytes_def str_of_def bytes_of_def)

lemma sent_go: "sent [str_of ''go''] = [Write (bytes_of ''go'' @ [0x0A]), Flush]"
  by simp

lemma writes_count:
  assumes "n \<le> 13"
  shows "length (writes (sent (take n all_cmds))) = n"
  using assms by (simp add: writes_sent length_all_cmds)

lemma queue_inv_main:
  "gets (trace s) @ q s = puts (trace s) \<Longrightarrow>
   gets (trace (main_step s)) @ q (main_step s) = puts (trace (main_step s))"
  by (auto simp: main_step_def send_def Let_def
        split: main_pc.splits list.splits sum.splits option.splits)

lemma queue_inv_drainer:
  "gets (trace s) @ q s = puts (trace s) \<Longrightarrow>
   gets (trace (enqueue_output_step s)) @ q (enqueue_output_step s)
     = puts (trace (enqueue_output_step s))"
  by (auto simp: enqueue_output_step_def split: option.splits sum.splits)

lemma queue_inv_reachable:
  "gets (trace (run sched (init out eof rc ok))) @ q (run sched (init out eof rc ok))
     = puts (trace (run sched (init out eof rc ok)))"
  by (induction rule: reachable_induct)
     (simp_all add: init_def queue_inv_main queue_inv_drainer)

lemma startswith_iff: "startswith t p = (\<exists>r. t = p @ r)"
proof
  assume "startswith t p"
  then have "t = p @ drop (length p) t"
    unfolding startswith_def by (metis append_take_drop_id)
  then show "\<exists>r. t = p @ r" ..
next
  assume "\<exists>r. t = p @ r"
  then show "startswith t p" by (auto simp: startswith_def)
qed

lemma past_loop_found:
  assumes "main_inv s" and "pc s \<in> {Report, Shutdown, Reap, Blocked, Exited}"
  shows "found (gets (trace s)) (bestmove s) \<and> (\<forall>l \<in> set (gets (trace s)). stdout_ok s l)"
  using assms by (cases "pc s") (simp_all add: main_inv_def)

lemma replicate_polls:
  "pc s = WaitLoop \<Longrightarrow> q s = [] \<Longrightarrow>
   run (replicate n Main) s = s\<lparr>trace := trace s @ replicate n Empty\<rparr>"
proof (induction n arbitrary: s)
  case 0
  then show ?case by simp
next
  case (Suc n)
  let ?s' = "s\<lparr>trace := trace s @ [Empty]\<rparr>"
  from Suc.prems have "main_step s = ?s'" by (simp add: main_step_WaitLoop_Nil)
  moreover from Suc.prems have "run (replicate n Main) ?s' = ?s'\<lparr>trace := trace ?s' @ replicate n Empty\<rparr>"
    by (intro Suc.IH) simp_all
  ultimately show ?case by (simp add: replicate_app_Cons_same)
qed

lemma is_best_iff: "is_best l = (\<exists>r. l = str_of ''bestmove'' @ r)"
  by (simp add: is_best_def startswith_iff)

lemma drainer_q: "\<exists>x. q (enqueue_output_step s) = q s @ x"
  by (simp add: enqueue_output_step_def split: option.splits sum.splits)

lemma run_drainers:
  assumes "\<forall>t \<in> set sched. t = Drainer"
  shows "pc (run sched s) = pc s \<and> bestmove (run sched s) = bestmove s
       \<and> gets (trace (run sched s)) = gets (trace s)
       \<and> main_io (trace (run sched s)) = main_io (trace s)"
  using assms by (induction sched arbitrary: s) (simp_all add: drainer_frame)

lemma loop_progress:
  assumes "pc s = WaitLoop" and "q s = pre @ b # post" and "\<forall>l \<in> set pre. \<not> is_best l"
    and "length (filter (\<lambda>t. t = Main) sched) = k" and "k \<le> length pre"
    and "stdout_ok s = ok" and "\<forall>l \<in> set pre. ok l"
  shows "pc (run sched s) = WaitLoop \<and> bestmove (run sched s) = bestmove s
       \<and> (\<exists>post'. q (run sched s) = drop k pre @ b # post @ post')
       \<and> gets (trace (run sched s)) = gets (trace s) @ take k pre
       \<and> main_io (trace (run sched s)) = main_io (trace s) @ echoes (take k pre)"
  using assms
proof (induction sched arbitrary: s pre post k)
  case Nil
  then show ?case by simp
next
  case (Cons t sched)
  show ?case
  proof (cases t)
    case Drainer
    let ?s' = "enqueue_output_step s"
    from drainer_q obtain x where x: "q ?s' = q s @ x" by blast
    have "pc ?s' = WaitLoop" "q ?s' = pre @ b # (post @ x)" "stdout_ok ?s' = ok"
      using Cons.prems x by (simp_all add: drainer_frame)
    moreover have "length (filter (\<lambda>t. t = Main) sched) = k"
      using Cons.prems Drainer by simp
    ultimately have "pc (run sched ?s') = WaitLoop \<and> bestmove (run sched ?s') = bestmove ?s'
       \<and> (\<exists>post'. q (run sched ?s') = drop k pre @ b # (post @ x) @ post')
       \<and> gets (trace (run sched ?s')) = gets (trace ?s') @ take k pre
       \<and> main_io (trace (run sched ?s')) = main_io (trace ?s') @ echoes (take k pre)"
      using Cons.prems(3,5,7) by (intro Cons.IH)
    then show ?thesis using Drainer by (auto simp: drainer_frame)
  next
    case Main
    with Cons.prems obtain k' where k: "k = Suc k'"
      and cnt: "length (filter (\<lambda>t. t = Main) sched) = k'" by auto
    with Cons.prems obtain p ps where pre: "pre = p # ps" by (cases pre) auto
    let ?s' = "main_step s"
    from Cons.prems pre have nb: "\<not> is_best p" and okp: "stdout_ok s p" by simp_all
    have step: "?s' = s\<lparr>q := ps @ b # post,
        trace := trace s @ [Get p, Print (str_of ''ENGINE: '' @ p @ [10])]\<rparr>"
      using Cons.prems(1,2) pre nb okp by (simp add: main_step_WaitLoop_Cons)
    have "pc ?s' = WaitLoop" "q ?s' = ps @ b # post" "\<forall>l \<in> set ps. \<not> is_best l" "k' \<le> length ps"
      "stdout_ok ?s' = ok" "\<forall>l \<in> set ps. ok l"
      using Cons.prems pre k by (simp_all add: step)
    with cnt have "pc (run sched ?s') = WaitLoop \<and> bestmove (run sched ?s') = bestmove ?s'
       \<and> (\<exists>post'. q (run sched ?s') = drop k' ps @ b # post @ post')
       \<and> gets (trace (run sched ?s')) = gets (trace ?s') @ take k' ps
       \<and> main_io (trace (run sched ?s')) = main_io (trace ?s') @ echoes (take k' ps)"
      by (intro Cons.IH)
    then show ?thesis using Main pre k by (simp add: step)
  qed
qed

lemma first_match:
  assumes "pc s = WaitLoop" and "q s = pre @ b # post" and "\<forall>l \<in> set pre. \<not> is_best l"
    and "is_best b" and "length (filter (\<lambda>t. t = Main) sched) = Suc (length pre)"
    and "stdout_ok s = ok" and "\<forall>l \<in> set pre. ok l" and "ok b"
  shows "pc (run sched s) = Report \<and> bestmove (run sched s) = Some b
       \<and> gets (trace (run sched s)) = gets (trace s) @ pre @ [b]
       \<and> main_io (trace (run sched s)) = main_io (trace s) @ echoes (pre @ [b])"
  using assms
proof (induction sched arbitrary: s pre post)
  case Nil
  then show ?case by simp
next
  case (Cons t sched)
  show ?case
  proof (cases t)
    case Drainer
    let ?s' = "enqueue_output_step s"
    from drainer_q obtain x where x: "q ?s' = q s @ x" by blast
    have "pc ?s' = WaitLoop" "q ?s' = pre @ b # (post @ x)" "stdout_ok ?s' = ok"
      using Cons.prems x by (simp_all add: drainer_frame)
    moreover have "length (filter (\<lambda>t. t = Main) sched) = Suc (length pre)"
      using Cons.prems Drainer by simp
    ultimately have "pc (run sched ?s') = Report \<and> bestmove (run sched ?s') = Some b
       \<and> gets (trace (run sched ?s')) = gets (trace ?s') @ pre @ [b]
       \<and> main_io (trace (run sched ?s')) = main_io (trace ?s') @ echoes (pre @ [b])"
      using Cons.prems(3,4,7,8) by (intro Cons.IH)
    then show ?thesis using Drainer by (simp add: drainer_frame)
  next
    case Main
    with Cons.prems have cnt: "length (filter (\<lambda>t. t = Main) sched) = length pre" by simp
    let ?s' = "main_step s"
    show ?thesis
    proof (cases pre)
      case Nil
      have step: "?s' = s\<lparr>q := post,
          trace := trace s @ [Get b, Print (str_of ''ENGINE: '' @ b @ [10])],
          pc := Report, bestmove := Some b\<rparr>"
        using Cons.prems Nil by (simp add: main_step_WaitLoop_Cons)
      from cnt Nil have "\<forall>t \<in> set sched. t = Drainer"
        by (simp add: filter_empty_conv) (metis thread.exhaust)
      from run_drainers [OF this, of ?s'] show ?thesis using Main Nil by (simp add: step)
    next
      case (Cons p ps)
      from Cons.prems Cons have nb: "\<not> is_best p" and okp: "stdout_ok s p" by simp_all
      have step: "?s' = s\<lparr>q := ps @ b # post,
          trace := trace s @ [Get p, Print (str_of ''ENGINE: '' @ p @ [10])]\<rparr>"
        using Cons.prems(1,2) Cons nb okp by (simp add: main_step_WaitLoop_Cons)
      have "pc ?s' = WaitLoop" "q ?s' = ps @ b # post" "\<forall>l \<in> set ps. \<not> is_best l"
        "length (filter (\<lambda>t. t = Main) sched) = Suc (length ps)"
        "stdout_ok ?s' = ok" "\<forall>l \<in> set ps. ok l"
        using Cons.prems Cons cnt by (simp_all add: step)
      with \<open>is_best b\<close> \<open>ok b\<close> have "pc (run sched ?s') = Report \<and> bestmove (run sched ?s') = Some b
         \<and> gets (trace (run sched ?s')) = gets (trace ?s') @ ps @ [b]
         \<and> main_io (trace (run sched ?s')) = main_io (trace ?s') @ echoes (ps @ [b])"
        by (intro Cons.IH)
      then show ?thesis using Main Cons by (simp add: step)
    qed
  qed
qed

lemma waiter_events_simps [simp]:
  "waiter_events [] = []" "waiter_events (es @ fs) = waiter_events es @ waiter_events fs"
  "waiter_events (e # es) = (case e of Get l \<Rightarrow> [e] | Print l \<Rightarrow> [e] | _ \<Rightarrow> []) @ waiter_events es"
  by (simp_all add: waiter_events_def split: event.splits)

lemma waiter_events_main_io [simp]: "waiter_events (main_io es) = waiter_events es"
  by (induction es) (simp_all split: event.splits)

lemma waiter_events_sent [simp]: "waiter_events (sent cs) = []"
  by (induction cs) simp_all

lemma waiter_events_echoes [simp]: "waiter_events (echoes ls) = echoes ls"
  by (induction ls) simp_all

lemma first_match_unique:
  "pre @ b' # r = diag @ b # later \<Longrightarrow> \<forall>l \<in> set pre. \<not> P l \<Longrightarrow> P b' \<Longrightarrow>
   \<forall>l \<in> set diag. \<not> P l \<Longrightarrow> P b \<Longrightarrow> pre = diag \<and> b' = b"
proof (induction pre arbitrary: diag)
  case Nil
  then show ?case by (cases diag) auto
next
  case (Cons p pre)
  then show ?case by (cases diag) auto
qed

lemma waiter_events_inv:
  assumes "main_inv s"
  shows "waiter_events (trace s) =
     (if \<exists>e. pc s = Aborted e
      then echoes (butlast (gets (trace s)))
             @ [Get (last (gets (trace s))), Print (str_of ''ENGINE: '')]
      else echoes (gets (trace s)) @
             (if pc s \<in> {Shutdown, Reap, Blocked, Exited}
              then [Print (final_line (last (gets (trace s))))] else []))"
proof -
  have eq: "waiter_events (trace s) = waiter_events (main_io (trace s))" by simp
  have g: "gets (trace s) = gets (main_io (trace s))" by simp
  show ?thesis
  proof (cases "pc s")
    case (Sending cs)
    with assms have io: "main_io (trace s) = sent (take (12 - length cs) script)"
      by (simp add: main_inv_def)
    then have "gets (trace s) = []" unfolding g by simp
    with io Sending show ?thesis unfolding eq by simp
  qed (use assms in \<open>simp_all add: eq main_inv_def\<close>)
qed

lemma gets_echoes [simp]: "gets (echoes ls) = ls"
  by (induction ls) simp_all

lemma split_once:
  "xs @ e # ys = A @ e # B \<Longrightarrow> e \<notin> set A \<Longrightarrow> e \<notin> set B \<Longrightarrow> xs = A \<and> ys = B"
proof (induction xs arbitrary: A)
  case Nil
  then show ?case by (cases A) auto
next
  case (Cons x xs)
  then show ?case by (cases A) auto
qed

lemma main_io_split:
  assumes "tr = pre @ e # post" and "e = Write d \<or> e = Wait"
  shows "main_io tr = main_io pre @ e # main_io post"
  using assms by auto

lemma quit_not_in_script: "Write (bytes_of ''quit'' @ [0x0A]) \<notin> set (sent script)"
  by (simp add: script_def position_cmds_def bytes_of_def)

lemma Wait_not_in_sent [simp]: "Wait \<notin> set (sent cs)"
  by (induction cs) simp_all

lemma Write_not_in_echoes [simp]: "Write d \<notin> set (echoes ls)"
  by (induction ls) simp_all

lemma Wait_not_in_echoes [simp]: "Wait \<notin> set (echoes ls)"
  by (induction ls) simp_all

lemma sent_quit: "sent [str_of ''quit''] = [Write (bytes_of ''quit'' @ [0x0A]), Flush]"
  by simp

lemma found_has_best: "found ls bm \<Longrightarrow> \<exists>l \<in> set ls. is_best l"
  unfolding found_def by (metis last_in_set)

lemma shutdown_order:
  assumes inv: "main_inv s" and tr: "trace s = pre @ e # post"
    and e: "e = Write (bytes_of ''quit'' @ [0x0A]) \<or> e = Wait"
  shows "(\<exists>l \<in> set (gets pre). is_best l)
       \<and> (e = Wait \<longrightarrow> Write (bytes_of ''quit'' @ [0x0A]) \<in> set pre \<and> main_io post = [])"
proof -
  let ?quit = "Write (bytes_of ''quit'' @ [0x0A])"
  let ?ls = "gets (trace s)"
  let ?P = "sent script @ echoes ?ls @ [Print (final_line (last ?ls))]"
  from tr e have io: "main_io (trace s) = main_io pre @ e # main_io post"
    by (intro main_io_split) auto
  then have mem: "e \<in> set (main_io (trace s))" by simp
  have notP: "e \<notin> set ?P" using e quit_not_in_script by auto
  have take_sub: "\<And>n. set (sent (take n script)) \<subseteq> set (sent script)"
    by (rule set_sent_take)
  have gP: "gets ?P = ?ls" by simp
  show ?thesis
  proof (cases "pc s")
    case (Sending cs)
    with inv have "main_io (trace s) = sent (take (12 - length cs) script)"
      by (simp add: main_inv_def)
    with mem take_sub e quit_not_in_script show ?thesis by auto
  next
    case WaitLoop
    with inv have "main_io (trace s) = sent script @ echoes ?ls" by (simp add: main_inv_def)
    with mem e quit_not_in_script show ?thesis by auto
  next
    case Report
    with inv have "main_io (trace s) = sent script @ echoes ?ls" by (simp add: main_inv_def)
    with mem e quit_not_in_script show ?thesis by auto
  next
    case Shutdown
    with inv have "main_io (trace s) = ?P" by (simp add: main_inv_def)
    with mem notP show ?thesis by simp
  next
    case Reap
    with inv have L: "main_io (trace s) = ?P @ ?quit # [Flush]" and f: "found ?ls (bestmove s)"
      by (simp_all add: main_inv_def)
    from mem L notP e have eq: "e = ?quit" by auto
    from io L eq have "main_io pre @ ?quit # main_io post = ?P @ ?quit # [Flush]" by simp
    from split_once [OF this] notP eq have "main_io pre = ?P" by simp
    then have "gets (main_io pre) = ?ls" using gP by simp
    then have "gets pre = ?ls" by simp
    with found_has_best [OF f] eq show ?thesis by simp
  next
    case Blocked
    with inv have L: "main_io (trace s) = ?P @ ?quit # Flush # [Wait]" and f: "found ?ls (bestmove s)"
      by (simp_all add: main_inv_def)
    show ?thesis
    proof (cases "e = Wait")
      case False
      with e have eq: "e = ?quit" by simp
      from io L eq have "main_io pre @ ?quit # main_io post = ?P @ ?quit # (Flush # [Wait])" by simp
      from split_once [OF this] notP eq have "main_io pre = ?P" by simp
      then have "gets (main_io pre) = ?ls" using gP by simp
      then have "gets pre = ?ls" by simp
      with found_has_best [OF f] eq show ?thesis by simp
    next
      case True
      from io L True have "main_io pre @ Wait # main_io post = (?P @ ?quit # [Flush]) @ Wait # []"
        by simp
      from split_once [OF this] notP True have pre: "main_io pre = ?P @ ?quit # [Flush]"
        and post: "main_io post = []" by simp_all
      from pre have "gets (main_io pre) = ?ls" by simp
      then have g: "gets pre = ?ls" by simp
      from pre have "?quit \<in> set (main_io pre)" by simp
      then have "?quit \<in> set pre" by (simp add: main_io_def)
      with found_has_best [OF f] g post show ?thesis by simp
    qed
  next
    case Exited
    with inv have L: "main_io (trace s) = ?P @ ?quit # Flush # [Wait]" and f: "found ?ls (bestmove s)"
      by (simp_all add: main_inv_def)
    show ?thesis
    proof (cases "e = Wait")
      case False
      with e have eq: "e = ?quit" by simp
      from io L eq have "main_io pre @ ?quit # main_io post = ?P @ ?quit # (Flush # [Wait])" by simp
      from split_once [OF this] notP eq have "main_io pre = ?P" by simp
      then have "gets (main_io pre) = ?ls" using gP by simp
      then have "gets pre = ?ls" by simp
      with found_has_best [OF f] eq show ?thesis by simp
    next
      case True
      from io L True have "main_io pre @ Wait # main_io post = (?P @ ?quit # [Flush]) @ Wait # []"
        by simp
      from split_once [OF this] notP True have pre: "main_io pre = ?P @ ?quit # [Flush]"
        and post: "main_io post = []" by simp_all
      from pre have "gets (main_io pre) = ?ls" by simp
      then have g: "gets pre = ?ls" by simp
      from pre have "?quit \<in> set (main_io pre)" by simp
      then have "?quit \<in> set pre" by (simp add: main_io_def)
      with found_has_best [OF f] g post show ?thesis by simp
    qed
  next
    case (Aborted err)
    with inv have "main_io (trace s) =
        sent script @ echoes (butlast ?ls) @ [Get (last ?ls), Print (str_of ''ENGINE: '')]"
      by (simp add: main_inv_def)
    with mem e quit_not_in_script show ?thesis by auto
  qed
qed

lemma step_exit_status:
  "exit_status s = Some a \<Longrightarrow>
   step t (s\<lparr>exit_status := Some b\<rparr>) = (step t s)\<lparr>exit_status := Some b\<rparr>"
proof (cases t)
  case Main
  assume "exit_status s = Some a"
  then show ?thesis unfolding Main
    by (cases "pc s")
       (auto simp: main_step_def send_def Let_def split: list.splits sum.splits)
next
  case Drainer
  show ?thesis unfolding Drainer
    by (simp add: enqueue_output_step_def split: option.splits sum.splits)
qed

lemma step_keeps_exit_status: "exit_status (step t s) = exit_status s"
  by (cases t) (simp_all add: drainer_frame main_frame)

lemma run_exit_status:
  "exit_status s = Some a \<Longrightarrow>
   run sched (s\<lparr>exit_status := Some b\<rparr>) = (run sched s)\<lparr>exit_status := Some b\<rparr>"
proof (induction sched arbitrary: s)
  case Nil
  show ?case by simp
next
  case (Cons t sched)
  from Cons.prems have "exit_status (step t s) = Some a" by (simp add: step_keeps_exit_status)
  from Cons.IH [OF this] Cons.prems show ?case by (simp add: step_exit_status del: step_simps)
qed

lemma Close_main_step: "(Close \<in> set (trace (main_step s))) = (Close \<in> set (trace s))"
  by (auto simp: main_step_def send_def Let_def
        split: main_pc.splits list.splits sum.splits option.splits)

lemma drainer_inv_init: "drainer_inv out (init out eof rc ok)"
  by (simp add: drainer_inv_def init_def)

lemma drainer_inv_main: "drainer_inv out s \<Longrightarrow> drainer_inv out (main_step s)"
  by (simp add: drainer_inv_def main_frame Close_main_step split: reader_state.splits)

lemma enqueue_output_step_cases [consumes 0, case_names idle blocked eof raised put]:
  obtains (idle) "reader s \<noteq> Draining \<or> terminated (pc s)" "enqueue_output_step s = s"
  | (blocked) "reader s = Draining" "readline (pipe s) (pipe_eof s) = None"
      "enqueue_output_step s = s"
  | (eof) rest where "reader s = Draining" "readline (pipe s) (pipe_eof s) = Some ([], rest)"
      "enqueue_output_step s = s\<lparr>reader := Returned, trace := trace s @ [Close]\<rparr>"
  | (raised) line rest e where "reader s = Draining"
      "readline (pipe s) (pipe_eof s) = Some (line, rest)" "line \<noteq> []" "decoded line = Inl e"
      "enqueue_output_step s = s\<lparr>pipe := rest, reader := Raised e, trace := trace s @ [Readline line]\<rparr>"
  | (put) line rest dec where "reader s = Draining"
      "readline (pipe s) (pipe_eof s) = Some (line, rest)" "line \<noteq> []" "decoded line = Inr dec"
      "enqueue_output_step s =
         s\<lparr>pipe := rest, q := q s @ [dec], trace := trace s @ [Readline line, Put dec]\<rparr>"
proof (cases "reader s \<noteq> Draining \<or> terminated (pc s)")
  case True
  then show ?thesis by (intro idle) (auto simp: enqueue_output_step_def)
next
  case False
  then have d: "reader s = Draining" "\<not> terminated (pc s)" by auto
  show ?thesis
  proof (cases "readline (pipe s) (pipe_eof s)")
    case None
    with d show ?thesis by (intro blocked) (auto simp: enqueue_output_step_def)
  next
    case (Some lr)
    obtain line rest where lr: "lr = (line, rest)" by (cases lr)
    show ?thesis
    proof (cases "line = []")
      case True
      with d Some lr show ?thesis by (intro eof) (auto simp: enqueue_output_step_def)
    next
      case False
      show ?thesis
      proof (cases "decoded line")
        case (Inl e)
        with d Some lr False show ?thesis by (intro raised) (auto simp: enqueue_output_step_def)
      next
        case (Inr dec)
        with d Some lr False show ?thesis by (intro put) (auto simp: enqueue_output_step_def)
      qed
    qed
  qed
qed

lemma drainer_inv_drainer:
  assumes "drainer_inv out s"
  shows "drainer_inv out (enqueue_output_step s)"
proof (cases s rule: enqueue_output_step_cases)
  case idle
  with assms show ?thesis by simp
next
  case blocked
  with assms show ?thesis by simp
next
  case (eof rest)
  with assms show ?thesis by (simp add: drainer_inv_def)
next
  case (raised line rest e)
  from readline_shape(1) [OF raised(2)] have "pipe s = line @ rest" .
  with assms raised show ?thesis by (simp add: drainer_inv_def)
next
  case (put line rest dec)
  from readline_shape(1) [OF put(2)] have "pipe s = line @ rest" .
  with assms put show ?thesis by (simp add: drainer_inv_def)
qed

lemma drainer_inv_reachable: "drainer_inv out (run sched (init out eof rc ok))"
  by (induction rule: reachable_induct)
     (simp_all add: drainer_inv_init drainer_inv_main drainer_inv_drainer)

subsection \<open>Lines are dequeued after they were enqueued\<close>









lemma raised_step: "reader s = Raised e \<Longrightarrow> enqueue_output_step s = s"
  by (simp add: enqueue_output_step_def)

lemma main_q: "\<exists>k. q (main_step s) = drop k (q s)"
proof (cases "pc s = WaitLoop")
  case True
  show ?thesis
  proof (cases "q s")
    case Nil
    with True show ?thesis by (simp add: main_step_WaitLoop_Nil)
  next
    case (Cons l rest)
    with True have "q (main_step s) = drop 1 (q s)" by (simp add: main_step_def Let_def)
    then show ?thesis ..
  qed
next
  case False
  then have "q (main_step s) = drop 0 (q s)"
    by (cases "pc s")
       (auto simp: main_step_def send_def split: list.splits sum.splits option.splits)
  then show ?thesis ..
qed

lemma raised_run:
  assumes "reader s = Raised e"
  shows "reader (run sched s) = Raised e \<and> pipe (run sched s) = pipe s
       \<and> reads (trace (run sched s)) = reads (trace s)
       \<and> puts (trace (run sched s)) = puts (trace s)
       \<and> (Close \<in> set (trace (run sched s))) = (Close \<in> set (trace s))
       \<and> (\<exists>k. q (run sched s) = drop k (q s))"
  using assms
proof (induction sched arbitrary: s)
  case Nil
  have "q s = drop 0 (q s)" by simp
  then have "\<exists>k. q s = drop k (q s)" ..
  then show ?case using Nil by simp
next
  case (Cons t sched)
  show ?case
  proof (cases t)
    case Drainer
    with Cons show ?thesis by (simp add: raised_step)
  next
    case Main
    let ?s' = "main_step s"
    from Cons.prems have r: "reader ?s' = Raised e" by (simp add: main_frame)
    from main_q obtain k1 where k1: "q ?s' = drop k1 (q s)" by blast
    from Cons.IH [OF r] obtain k2 where k2: "q (run sched ?s') = drop k2 (q ?s')"
      and rest: "reader (run sched ?s') = Raised e" "pipe (run sched ?s') = pipe ?s'"
        "reads (trace (run sched ?s')) = reads (trace ?s')"
        "puts (trace (run sched ?s')) = puts (trace ?s')"
        "(Close \<in> set (trace (run sched ?s'))) = (Close \<in> set (trace ?s'))"
      by blast
    from k1 k2 have "q (run sched ?s') = drop (k2 + k1) (q s)" by simp
    then have "\<exists>k. q (run sched ?s') = drop k (q s)" ..
    with rest Main show ?thesis by (simp add: main_frame Close_main_step)
  qed
qed

lemma raised_polls:
  assumes "reader s = Raised e" and "pc s = WaitLoop" and "q s = []"
  shows "run sched s =
     s\<lparr>trace := trace s @ replicate (length (filter (\<lambda>t. t = Main) sched)) Empty\<rparr>"
  using assms
proof (induction sched arbitrary: s)
  case Nil
  then show ?case by simp
next
  case (Cons t sched)
  show ?case
  proof (cases t)
    case Drainer
    with Cons show ?thesis by (simp add: raised_step)
  next
    case Main
    let ?s' = "s\<lparr>trace := trace s @ [Empty]\<rparr>"
    from Cons.prems have step: "main_step s = ?s'" by (simp add: main_step_WaitLoop_Nil)
    from Cons.prems have "run sched ?s' =
        ?s'\<lparr>trace := trace ?s' @ replicate (length (filter (\<lambda>t. t = Main) sched)) Empty\<rparr>"
      by (intro Cons.IH) simp_all
    with Main step show ?thesis by (simp add: replicate_app_Cons_same)
  qed
qed

section \<open>The command sender\<close>

text \<open>
  C5 (as amended). \<open>send(cmd)\<close> encodes \<open>cmd\<close> as UTF-8; when \<open>cmd\<close> has an encoding, it
  performs exactly one \<open>write\<close>, of that encoding followed by a single newline byte,
  and then one \<open>flush\<close>, and nothing else; when \<open>cmd\<close> holds a lone surrogate code point
  it has no UTF-8 encoding, \<open>encode\<close> raises and nothing is written. The witness sends
  \<open>go\<close>; the counterexample to the unrestricted claim sends the code point \<open>U+D800\<close>.
\<close>

theorem send_writes_encoded_line:
  "send cmd s =
     (case utf8_encode cmd of
        Inl e \<Rightarrow> Inl e
      | Inr data \<Rightarrow> Inr (s\<lparr>trace := trace s @ [Write (data @ [0x0A]), Flush]\<rparr>))"
  by (simp add: send_def utf8_encode_append encode_cp_def split: sum.splits)

theorem send_writes_encoded_line_witness:
  "send (str_of ''go'') (init [] False None utf8_console) =
     Inr ((init [] False None utf8_console)\<lparr>trace := [Write [0x67, 0x6F, 0x0A], Flush]\<rparr>)"
  using send_writes_encoded_line [of "str_of ''go''" "init [] False None utf8_console"]
  by (simp add: str_of_def encode_cp_def init_def)

theorem send_surrogate_counterexample:
  "send [0xD800] (init [] False None utf8_console) = Inl UnicodeEncodeError"
  by (simp add: send_def encode_cp_def)

section \<open>The output drainer\<close>



section \<open>The commands sent\<close>

text \<open>
  C4. In every run, under every schedule and whatever the engine prints, once \<open>go\<close> has
  been written the calls made on the engine's input before it are exactly the eleven
  literal commands of the board position, each written with its newline and flushed:
  \<open>position 1w\<close>, \<open>setup\<close>, the eight rows, \<open>end\<close>, in that order and no others.
\<close>

theorem commands_before_go:
  assumes "Write (bytes_of ''go'' @ [0x0A]) \<in> set (trace (run sched (init out eof rc ok)))"
  shows "takeWhile (\<lambda>e. e \<noteq> Write (bytes_of ''go'' @ [0x0A]))
           (stdin_calls (trace (run sched (init out eof rc ok)))) =
         concat (map (\<lambda>c. [Write (bytes_of c @ [0x0A]), Flush])
           [''position 1w'', ''setup'',
            ''  r r r r r r r r'', ''  h c d m e d c h'',
            ''  . . . . . . . .'', ''  . . . . . . . .'', ''  . . . . . . . .'', ''  . . . . . . . .'',
            ''  H C D M E D C H'', ''  R R R R R R R R'',
            ''end''])"
proof -
  let ?s = "run sched (init out eof rc ok)"
  let ?go = "Write (bytes_of ''go'' @ [0x0A])"
  from stdin_prefix [OF main_inv_reachable] obtain n where
    n: "n \<le> 13" and st: "stdin_calls (trace ?s) = sent (take n all_cmds)" by blast
  from assms have "?go \<in> set (stdin_calls (trace ?s))" by (simp add: stdin_calls_def)
  with st have mem: "?go \<in> set (sent (take n all_cmds))" by simp
  have "\<not> n \<le> 11"
  proof
    assume "n \<le> 11"
    then have "take n all_cmds = take n position_cmds"
      by (simp add: all_cmds_def script_def length_position_cmds)
    with mem set_sent_take [of n position_cmds] go_not_in_position show False by auto
  qed
  with n have "n = 12 \<or> n = 13" by arith
  then obtain r where "take n all_cmds = position_cmds @ [str_of ''go''] @ r"
    by (auto simp: all_cmds_def script_def length_position_cmds)
  with st have "stdin_calls (trace ?s) = sent position_cmds @ ?go # Flush # sent r"
    by (simp add: sent_go)
  then have "takeWhile (\<lambda>e. e \<noteq> ?go) (stdin_calls (trace ?s)) = sent position_cmds"
    using go_not_in_position by (simp add: takeWhile_until)
  then show ?thesis by (simp only: sent_position_cmds)
qed

theorem commands_before_go_witness:
  "takeWhile (\<lambda>e. e \<noteq> Write (bytes_of ''go'' @ [0x0A]))
     (stdin_calls (trace (run
        [Main, Drainer, Main, Main, Main, Main, Main, Main, Main, Main, Main, Main, Main, Main]
        (init [0x68, 0x69, 0x0A] False None utf8_console)))) =
   concat (map (\<lambda>c. [Write (bytes_of c @ [0x0A]), Flush])
     [''position 1w'', ''setup'',
      ''  r r r r r r r r'', ''  h c d m e d c h'',
      ''  . . . . . . . .'', ''  . . . . . . . .'', ''  . . . . . . . .'', ''  . . . . . . . .'',
      ''  H C D M E D C H'', ''  R R R R R R R R'',
      ''end''])"
proof -
  have h: "Write (bytes_of ''go'' @ [0x0A]) \<in> set (trace (run
      [Main, Drainer, Main, Main, Main, Main, Main, Main, Main, Main, Main, Main, Main, Main]
      (init [0x68, 0x69, 0x0A] False None utf8_console)))"
    by code_simp
  from commands_before_go [OF h] show ?thesis .
qed

text \<open>
  C8. The command sender is deterministic. What \<open>send(cmd)\<close> does, the error raised or
  the calls appended, is the same in any two sessions; and two runs of the script, with
  any engine output, exit behaviour and schedule, that have made the same number of
  writes have made identical calls on the engine's input, byte for byte.
\<close>

theorem command_stream_deterministic:
  "map_sum id (\<lambda>t. drop (length (trace s1)) (trace t)) (send cmd s1)
     = map_sum id (\<lambda>t. drop (length (trace s2)) (trace t)) (send cmd s2)
   \<and> (length (writes (trace (run sched1 (init out1 eof1 rc1 ok1))))
        = length (writes (trace (run sched2 (init out2 eof2 rc2 ok2))))
      \<longrightarrow> stdin_calls (trace (run sched1 (init out1 eof1 rc1 ok1)))
        = stdin_calls (trace (run sched2 (init out2 eof2 rc2 ok2))))"
proof (intro conjI impI)
  show "map_sum id (\<lambda>t. drop (length (trace s1)) (trace t)) (send cmd s1)
     = map_sum id (\<lambda>t. drop (length (trace s2)) (trace t)) (send cmd s2)"
    by (simp add: send_def split: sum.splits)
next
  let ?r1 = "run sched1 (init out1 eof1 rc1 ok1)" and ?r2 = "run sched2 (init out2 eof2 rc2 ok2)"
  assume len: "length (writes (trace ?r1)) = length (writes (trace ?r2))"
  from stdin_prefix [OF main_inv_reachable] obtain n1 where
    n1: "n1 \<le> 13" "stdin_calls (trace ?r1) = sent (take n1 all_cmds)" by blast
  from stdin_prefix [OF main_inv_reachable] obtain n2 where
    n2: "n2 \<le> 13" "stdin_calls (trace ?r2) = sent (take n2 all_cmds)" by blast
  have "length (writes (trace ?r1)) = n1"
    using writes_count [OF n1(1)] n1(2) by (metis writes_stdin_calls)
  moreover have "length (writes (trace ?r2)) = n2"
    using writes_count [OF n2(1)] n2(2) by (metis writes_stdin_calls)
  ultimately have "n1 = n2" using len by simp
  with n1 n2 show "stdin_calls (trace ?r1) = stdin_calls (trace ?r2)" by simp
qed

theorem command_stream_deterministic_witness:
  "stdin_calls (trace (run [Main, Main, Drainer] (init [0x78, 0x0A] True None utf8_console)))
     = stdin_calls (trace (run [Drainer, Main, Drainer, Main] (init [] False (Some 0) utf8_console)))"
proof -
  have h: "length (writes (trace (run [Main, Main, Drainer] (init [0x78, 0x0A] True None utf8_console))))
     = length (writes (trace (run [Drainer, Main, Drainer, Main] (init [] False (Some 0) utf8_console))))"
    by code_simp
  from command_stream_deterministic [THEN conjunct2, rule_format, OF h] show ?thesis .
qed

section \<open>The response waiter\<close>

text \<open>
  C2 (as amended). Take any engine output, closed at its end or not, any console and any
  schedule. As long as no line dequeued so far starts with \<open>bestmove\<close> and the console can
  encode every one of them (in particular when this holds of every line enqueued), the
  main thread is still sending the position or inside the wait loop: the loop has not
  ended. When the main thread is past the loop, the last line it dequeued starts with
  \<open>bestmove\<close> and is the result: the loop is left normally only upon observing such a line.
  The one other way the loop ends is the exception that \<open>print\<close> raises on a dequeued line
  that the console cannot encode. Inside the loop on an empty queue, any number \<open>n\<close> of
  further passes are \<open>n\<close> polls that time out and change nothing else. The counterexample
  to the claim without the console is the output \<open>U+00E9\<close> on an ASCII console: no line starts
  with \<open>bestmove\<close>, and the loop has ended.
\<close>

theorem waiter_never_exits_without_bestmove:
  assumes "s = run sched (init out eof rc ok)"
  shows "((\<forall>l \<in> set (gets (trace s)). \<not> startswith l (str_of ''bestmove'') \<and> ok l)
            \<longrightarrow> pc s = WaitLoop \<or> (\<exists>cs. pc s = Sending cs))
       \<and> ((\<forall>l \<in> set (puts (trace s)). \<not> startswith l (str_of ''bestmove'') \<and> ok l)
            \<longrightarrow> pc s = WaitLoop \<or> (\<exists>cs. pc s = Sending cs))
       \<and> (pc s \<in> {Report, Shutdown, Reap, Blocked, Exited}
            \<longrightarrow> gets (trace s) \<noteq> [] \<and> startswith (last (gets (trace s))) (str_of ''bestmove'')
              \<and> bestmove s = Some (last (gets (trace s))))
       \<and> (pc s = Aborted e
            \<longrightarrow> e = UnicodeEncodeError \<and> gets (trace s) \<noteq> [] \<and> \<not> ok (last (gets (trace s))))
       \<and> (pc s = WaitLoop \<and> q s = []
            \<longrightarrow> run (replicate n Main) s = s\<lparr>trace := trace s @ replicate n Empty\<rparr>)"
proof -
  have inv: "main_inv s" unfolding assms by (rule main_inv_reachable)
  have ok: "stdout_ok s = ok" unfolding assms by (rule stdout_ok_reachable)
  have sub: "set (gets (trace s)) \<subseteq> set (puts (trace s))"
    using queue_inv_reachable [of sched out eof rc ok] unfolding assms
    by (metis set_append Un_upper1)
  have past: "gets (trace s) \<noteq> [] \<and> startswith (last (gets (trace s))) (str_of ''bestmove'')
              \<and> bestmove s = Some (last (gets (trace s)))"
    if "pc s \<in> {Report, Shutdown, Reap, Blocked, Exited}"
    using past_loop_found [OF inv that] by (simp add: found_def is_best_def)
  have ab: "e = UnicodeEncodeError \<and> gets (trace s) \<noteq> [] \<and> \<not> ok (last (gets (trace s)))"
    if "pc s = Aborted e" for e
    using aborted_refused [OF inv that] ok by simp
  have waiting: "pc s = WaitLoop \<or> (\<exists>cs. pc s = Sending cs)"
    if h: "\<forall>l \<in> set (gets (trace s)). \<not> startswith l (str_of ''bestmove'') \<and> ok l"
  proof (cases "pc s")
    case (Aborted e')
    from ab [OF this] have "last (gets (trace s)) \<in> set (gets (trace s))"
      and "\<not> ok (last (gets (trace s)))" by simp_all
    with h show ?thesis by blast
  next
    case (Sending cs)
    then show ?thesis by simp
  next
    case WaitLoop
    then show ?thesis by simp
  qed (use past h in \<open>auto dest: last_in_set\<close>)
  have polls: "run (replicate n Main) s = s\<lparr>trace := trace s @ replicate n Empty\<rparr>"
    if "pc s = WaitLoop \<and> q s = []"
    using that by (simp add: replicate_polls)
  from waiting sub past ab polls show ?thesis by blast
qed

theorem waiter_never_exits_without_bestmove_witness:
  "pc (run [Drainer, Main, Main, Main, Main, Main, Main, Main, Main, Main, Main, Main, Main,
            Main, Drainer, Main, Main, Drainer, Main]
         (init (bytes_of ''info bestmove'' @ [0x0A] @ bytes_of ''best'' @ [0x0A]) True None
            utf8_console))
     = WaitLoop
   \<or> (\<exists>cs. pc (run [Drainer, Main, Main, Main, Main, Main, Main, Main, Main, Main, Main, Main,
                      Main, Main, Drainer, Main, Main, Drainer, Main]
         (init (bytes_of ''info bestmove'' @ [0x0A] @ bytes_of ''best'' @ [0x0A]) True None
            utf8_console))
     = Sending cs)"
proof -
  let ?sched = "[Drainer, Main, Main, Main, Main, Main, Main, Main, Main, Main, Main, Main, Main,
            Main, Drainer, Main, Main, Drainer, Main]"
  let ?out = "bytes_of ''info bestmove'' @ [0x0A] @ bytes_of ''best'' @ [0x0A]"
  have h: "\<forall>l \<in> set (gets (trace (run ?sched (init ?out True None utf8_console)))).
             \<not> startswith l (str_of ''bestmove'') \<and> utf8_console l"
    by code_simp
  from waiter_never_exits_without_bestmove [OF refl, THEN conjunct1, THEN mp, OF h]
  show ?thesis .
qed

theorem print_refused_ends_loop_counterexample:
  "puts (trace (run (Drainer # replicate 14 Main) (init [0xC3, 0xA9, 0x0A] True None ascii_console)))
     = [[0xE9]]
   \<and> \<not> startswith [0xE9] (str_of ''bestmove'')
   \<and> pc (run (Drainer # replicate 14 Main) (init [0xC3, 0xA9, 0x0A] True None ascii_console))
     = Aborted UnicodeEncodeError"
  by code_simp

text \<open>
  C3 (as amended). A dequeued line that the console can encode ends the wait loop
  exactly when it begins with \<open>bestmove\<close>, that is, when it is \<open>bestmove\<close> followed by
  something; any other such line, also one holding \<open>bestmove\<close> further in, keeps the loop
  going. A dequeued line that the console cannot encode is not tested at all: \<open>print\<close>
  raises before the test, whatever the line begins with, and no result is set. With the
  queue holding encodable lines that do not match and then one that does, under any
  schedule the loop is still running as long as the main thread has made no more passes
  than there are lines before the match, and the pass after them ends it with that line
  as the result. The counterexample to the claim without the console is a line that
  begins with \<open>bestmove\<close> and holds \<open>U+00E9\<close>, on an ASCII console.
\<close>

theorem waiter_stops_at_first_prefix_match:
  "(pc s = WaitLoop \<and> q s = line # rest \<and> stdout_ok s line \<longrightarrow>
      (pc (main_step s) = Report) = (\<exists>r. line = str_of ''bestmove'' @ r)
    \<and> (pc (main_step s) = WaitLoop) = (\<not> (\<exists>r. line = str_of ''bestmove'' @ r)))
   \<and> (pc s = WaitLoop \<and> q s = line # rest \<and> \<not> stdout_ok s line \<longrightarrow>
      pc (main_step s) = Aborted UnicodeEncodeError \<and> bestmove (main_step s) = bestmove s)
   \<and> (pc s = WaitLoop \<and> q s = pre @ b # post
       \<and> (\<forall>l \<in> set pre. \<not> (\<exists>r. l = str_of ''bestmove'' @ r) \<and> stdout_ok s l)
       \<and> (\<exists>r. b = str_of ''bestmove'' @ r) \<and> stdout_ok s b \<longrightarrow>
         (length (filter (\<lambda>t. t = Main) sched) \<le> length pre \<longrightarrow> pc (run sched s) = WaitLoop)
       \<and> (length (filter (\<lambda>t. t = Main) sched) = Suc (length pre) \<longrightarrow>
            pc (run sched s) = Report \<and> bestmove (run sched s) = Some b))"
proof (intro conjI impI)
  assume a: "pc s = WaitLoop \<and> q s = line # rest \<and> stdout_ok s line"
  then show "(pc (main_step s) = Report) = (\<exists>r. line = str_of ''bestmove'' @ r)"
    by (simp add: main_step_WaitLoop_Cons flip: is_best_iff)
  from a show "(pc (main_step s) = WaitLoop) = (\<not> (\<exists>r. line = str_of ''bestmove'' @ r))"
    by (simp add: main_step_WaitLoop_Cons flip: is_best_iff)
next
  assume a: "pc s = WaitLoop \<and> q s = line # rest \<and> \<not> stdout_ok s line"
  then show "pc (main_step s) = Aborted UnicodeEncodeError"
    and "bestmove (main_step s) = bestmove s"
    by (simp_all add: main_step_WaitLoop_refused)
next
  assume a: "pc s = WaitLoop \<and> q s = pre @ b # post
       \<and> (\<forall>l \<in> set pre. \<not> (\<exists>r. l = str_of ''bestmove'' @ r) \<and> stdout_ok s l)
       \<and> (\<exists>r. b = str_of ''bestmove'' @ r) \<and> stdout_ok s b"
  then have h: "pc s = WaitLoop" "q s = pre @ b # post" "\<forall>l \<in> set pre. \<not> is_best l" "is_best b"
    and k: "\<forall>l \<in> set pre. stdout_ok s l" "stdout_ok s b"
    by (simp_all add: is_best_iff)
  {
    assume "length (filter (\<lambda>t. t = Main) sched) \<le> length pre"
    with loop_progress [OF h(1,2,3) refl _ refl k(1)] show "pc (run sched s) = WaitLoop" by simp
  }
  {
    assume "length (filter (\<lambda>t. t = Main) sched) = Suc (length pre)"
    with first_match [OF h _ refl k] show "pc (run sched s) = Report"
      "bestmove (run sched s) = Some b"
      by simp_all
  }
qed

theorem waiter_stops_at_first_prefix_match_witness:
  "pc (main_step ((init [] False None utf8_console)
        \<lparr>q := [str_of ''info bestmove'', str_of ''bestmove e2e3'', str_of ''late''],
          pc := WaitLoop\<rparr>)) = WaitLoop
   \<and> pc (run [Main, Drainer, Main] ((init [] False None utf8_console)
        \<lparr>q := [str_of ''info bestmove'', str_of ''bestmove e2e3'', str_of ''late''],
          pc := WaitLoop\<rparr>)) = Report
   \<and> bestmove (run [Main, Drainer, Main] ((init [] False None utf8_console)
        \<lparr>q := [str_of ''info bestmove'', str_of ''bestmove e2e3'', str_of ''late''],
          pc := WaitLoop\<rparr>)) = Some (str_of ''bestmove e2e3'')"
proof -
  let ?s = "(init [] False None utf8_console)
        \<lparr>q := [str_of ''info bestmove'', str_of ''bestmove e2e3'', str_of ''late''],
          pc := WaitLoop\<rparr>"
  have k1: "stdout_ok ?s (str_of ''info bestmove'')" and k2: "stdout_ok ?s (str_of ''bestmove e2e3'')"
    by code_simp+
  have h1: "pc ?s = WaitLoop \<and> q ?s = str_of ''info bestmove'' # [str_of ''bestmove e2e3'', str_of ''late'']
       \<and> stdout_ok ?s (str_of ''info bestmove'')"
    using k1 by simp
  have n1: "\<not> (\<exists>r. str_of ''info bestmove'' = str_of ''bestmove'' @ r)"
    by (simp add: str_of_def)
  have y1: "\<exists>r. str_of ''bestmove e2e3'' = str_of ''bestmove'' @ r"
    by (simp add: str_of_def)
  have h2: "pc ?s = WaitLoop \<and> q ?s = [str_of ''info bestmove''] @ str_of ''bestmove e2e3'' # [str_of ''late'']
       \<and> (\<forall>l \<in> set [str_of ''info bestmove'']. \<not> (\<exists>r. l = str_of ''bestmove'' @ r) \<and> stdout_ok ?s l)
       \<and> (\<exists>r. str_of ''bestmove e2e3'' = str_of ''bestmove'' @ r)
       \<and> stdout_ok ?s (str_of ''bestmove e2e3'')"
    using n1 y1 k1 k2 by simp
  have c: "length (filter (\<lambda>t. t = Main) [Main, Drainer, Main]) = Suc (length [str_of ''info bestmove''])"
    by simp
  note inst = waiter_stops_at_first_prefix_match
    [where s = ?s and line = "str_of ''info bestmove''"
       and rest = "[str_of ''bestmove e2e3'', str_of ''late'']"
       and pre = "[str_of ''info bestmove'']" and b = "str_of ''bestmove e2e3''"
       and post = "[str_of ''late'']" and sched = "[Main, Drainer, Main]"]
  from inst h1 n1 have "pc (main_step ?s) = WaitLoop" by blast
  moreover from inst h2 c have "pc (run [Main, Drainer, Main] ?s) = Report
      \<and> bestmove (run [Main, Drainer, Main] ?s) = Some (str_of ''bestmove e2e3'')" by blast
  ultimately show ?thesis by blast
qed

theorem bestmove_line_refused_counterexample:
  "gets (trace (run (Drainer # replicate 14 Main)
      (init (bytes_of ''bestmove '' @ [0xC3, 0xA9, 0x0A]) True None ascii_console)))
     = [str_of ''bestmove '' @ [0xE9]]
   \<and> startswith (str_of ''bestmove '' @ [0xE9]) (str_of ''bestmove'')
   \<and> pc (run (Drainer # replicate 14 Main)
      (init (bytes_of ''bestmove '' @ [0xC3, 0xA9, 0x0A]) True None ascii_console))
     = Aborted UnicodeEncodeError
   \<and> bestmove (run (Drainer # replicate 14 Main)
      (init (bytes_of ''bestmove '' @ [0xC3, 0xA9, 0x0A]) True None ascii_console))
     = None"
  by code_simp

text \<open>
  C9 (as amended). In every run in which the console can encode every line dequeued so
  far, the dequeues and prints of the main thread are, in order: each dequeued line
  immediately followed by its echo \<open>ENGINE: line\<close>, the bestmove line included, and, once
  the loop has been left and the result reported, one separate print of the final move,
  which is the last line dequeued. Otherwise the lines before the last one dequeued are
  such pairs, and the last one, which the console cannot encode, is followed by the text
  \<open>ENGINE: \<close> alone: it is not echoed, and the script has ended there. When the lines
  enqueued are diagnostic lines, of any number (fifty, say), then a bestmove line, and
  the loop has been left for the final print, the lines dequeued are exactly the
  diagnostic lines followed by the bestmove line, which is the result: all of them were
  echoed, in order, before it. The counterexample to the claim without the console is
  the output \<open>info\<close>, \<open>U+00E9\<close> on an ASCII console.
\<close>

theorem every_dequeued_line_is_echoed:
  assumes "s = run sched (init out eof rc ok)"
  shows "((\<forall>l \<in> set (gets (trace s)). ok l) \<longrightarrow>
            waiter_events (trace s) =
              concat (map (\<lambda>l. [Get l, Print (str_of ''ENGINE: '' @ l @ [10])]) (gets (trace s)))
              @ (if pc s \<in> {Shutdown, Reap, Blocked, Exited}
                 then [Print ([10] @ str_of ''Final engine move: '' @ last (gets (trace s)) @ [10])]
                 else []))
       \<and> (\<not> (\<forall>l \<in> set (gets (trace s)). ok l) \<longrightarrow>
            pc s = Aborted UnicodeEncodeError
            \<and> (\<forall>l \<in> set (butlast (gets (trace s))). ok l) \<and> \<not> ok (last (gets (trace s)))
            \<and> waiter_events (trace s) =
                concat (map (\<lambda>l. [Get l, Print (str_of ''ENGINE: '' @ l @ [10])])
                  (butlast (gets (trace s))))
                @ [Get (last (gets (trace s))), Print (str_of ''ENGINE: '')])
       \<and> (pc s \<in> {Report, Shutdown, Reap, Blocked, Exited}
            \<and> puts (trace s) = diag @ b # later
            \<and> (\<forall>l \<in> set diag. \<not> startswith l (str_of ''bestmove''))
            \<and> startswith b (str_of ''bestmove'')
          \<longrightarrow> gets (trace s) = diag @ [b] \<and> bestmove s = Some b)"
proof -
  have inv: "main_inv s" unfolding assms by (rule main_inv_reachable)
  have ok: "stdout_ok s = ok" unfolding assms by (rule stdout_ok_reachable)
  note we = waiter_events_inv [OF inv]
  have third: "gets (trace s) = diag @ [b] \<and> bestmove s = Some b"
    if a: "pc s \<in> {Report, Shutdown, Reap, Blocked, Exited}
            \<and> puts (trace s) = diag @ b # later
            \<and> (\<forall>l \<in> set diag. \<not> startswith l (str_of ''bestmove''))
            \<and> startswith b (str_of ''bestmove'')"
  proof -
    from a have "found (gets (trace s)) (bestmove s)"
      using past_loop_found [OF inv] by blast
    then obtain pre b' where g: "gets (trace s) = pre @ [b']" and bm: "bestmove s = Some b'"
      and b': "is_best b'" and pre: "\<forall>l \<in> set pre. \<not> is_best l"
      unfolding found_def by (metis append_butlast_last_id)
    from queue_inv_reachable [of sched out eof rc ok] g a
    have "pre @ b' # q s = diag @ b # later" unfolding assms by simp
    from first_match_unique [OF this pre b'] a have "pre = diag \<and> b' = b"
      by (simp add: is_best_def)
    with g bm show ?thesis by simp
  qed
  show ?thesis
  proof (cases "\<exists>e. pc s = Aborted e")
    case True
    then obtain e where e: "pc s = Aborted e" ..
    from aborted_refused [OF inv e] ok
    have r: "e = UnicodeEncodeError" "gets (trace s) \<noteq> []" "\<not> ok (last (gets (trace s)))"
      "\<forall>l \<in> set (butlast (gets (trace s))). ok l"
      by simp_all
    then have "last (gets (trace s)) \<in> set (gets (trace s))" by simp
    with r have no: "\<not> (\<forall>l \<in> set (gets (trace s)). ok l)" by blast
    from we True have "waiter_events (trace s) =
        concat (map (\<lambda>l. [Get l, Print (str_of ''ENGINE: '' @ l @ [10])])
                  (butlast (gets (trace s))))
          @ [Get (last (gets (trace s))), Print (str_of ''ENGINE: '')]"
      by (simp add: echoes_def)
    with no r e third show ?thesis by blast
  next
    case False
    then have "\<forall>e. pc s \<noteq> Aborted e" by blast
    from waiting_ok [OF inv this] ok have yes: "\<forall>l \<in> set (gets (trace s)). ok l" by simp
    from we False have "waiter_events (trace s) =
        concat (map (\<lambda>l. [Get l, Print (str_of ''ENGINE: '' @ l @ [10])]) (gets (trace s)))
          @ (if pc s \<in> {Shutdown, Reap, Blocked, Exited}
             then [Print ([10] @ str_of ''Final engine move: '' @ last (gets (trace s)) @ [10])]
             else [])"
      by (simp add: echoes_def final_line_def)
    with yes third show ?thesis by blast
  qed
qed

theorem every_dequeued_line_is_echoed_witness:
  "gets (trace (run (replicate 4 Drainer @ replicate 17 Main)
      (init (concat (replicate 3 (bytes_of ''info'' @ [0x0A])) @ bytes_of ''bestmove a2a3'' @ [0x0A])
         True None utf8_console)))
     = replicate 3 (str_of ''info'') @ [str_of ''bestmove a2a3'']
   \<and> bestmove (run (replicate 4 Drainer @ replicate 17 Main)
      (init (concat (replicate 3 (bytes_of ''info'' @ [0x0A])) @ bytes_of ''bestmove a2a3'' @ [0x0A])
         True None utf8_console))
     = Some (str_of ''bestmove a2a3'')
   \<and> waiter_events (trace (run (replicate 4 Drainer @ replicate 17 Main)
      (init (concat (replicate 3 (bytes_of ''info'' @ [0x0A])) @ bytes_of ''bestmove a2a3'' @ [0x0A])
         True None utf8_console)))
     = concat (map (\<lambda>l. [Get l, Print (str_of ''ENGINE: '' @ l @ [10])])
         (replicate 3 (str_of ''info'') @ [str_of ''bestmove a2a3'']))"
proof -
  let ?s = "run (replicate 4 Drainer @ replicate 17 Main)
      (init (concat (replicate 3 (bytes_of ''info'' @ [0x0A])) @ bytes_of ''bestmove a2a3'' @ [0x0A])
         True None utf8_console)"
  have h1: "pc ?s \<in> {Report, Shutdown, Reap, Blocked, Exited}" by code_simp
  have h2: "puts (trace ?s) = replicate 3 (str_of ''info'') @ str_of ''bestmove a2a3'' # []"
    by code_simp
  have h3: "\<forall>l \<in> set (replicate 3 (str_of ''info'')). \<not> startswith l (str_of ''bestmove'')"
    by code_simp
  have h4: "startswith (str_of ''bestmove a2a3'') (str_of ''bestmove'')" by code_simp
  have h5: "\<forall>l \<in> set (gets (trace ?s)). utf8_console l" by code_simp
  have h6: "pc ?s \<notin> {Shutdown, Reap, Blocked, Exited}" by code_simp
  note inst = every_dequeued_line_is_echoed
    [OF refl, where sched = "replicate 4 Drainer @ replicate 17 Main"
       and diag = "replicate 3 (str_of ''info'')" and b = "str_of ''bestmove a2a3''"
       and later = "[]"]
  from inst [THEN conjunct2, THEN conjunct2] h1 h2 h3 h4
  have g: "gets (trace ?s) = replicate 3 (str_of ''info'') @ [str_of ''bestmove a2a3'']
      \<and> bestmove ?s = Some (str_of ''bestmove a2a3'')"
    by blast
  from inst [THEN conjunct1, THEN mp, OF h5] h6 g
  have "waiter_events (trace ?s)
     = concat (map (\<lambda>l. [Get l, Print (str_of ''ENGINE: '' @ l @ [10])])
         (replicate 3 (str_of ''info'') @ [str_of ''bestmove a2a3'']))"
    by simp
  with g show ?thesis by blast
qed

theorem dequeued_line_not_echoed_counterexample:
  "gets (trace (run (Drainer # Drainer # replicate 15 Main)
      (init (bytes_of ''info'' @ [0x0A, 0xC3, 0xA9, 0x0A]) True None ascii_console)))
     = [str_of ''info'', [0xE9]]
   \<and> waiter_events (trace (run (Drainer # Drainer # replicate 15 Main)
      (init (bytes_of ''info'' @ [0x0A, 0xC3, 0xA9, 0x0A]) True None ascii_console)))
     = [Get (str_of ''info''), Print (str_of ''ENGINE: info'' @ [10]),
        Get [0xE9], Print (str_of ''ENGINE: '')]
   \<and> pc (run (Drainer # Drainer # replicate 15 Main)
      (init (bytes_of ''info'' @ [0x0A, 0xC3, 0xA9, 0x0A]) True None ascii_console))
     = Aborted UnicodeEncodeError"
  by code_simp

section \<open>Shutdown\<close>

text \<open>
  C7. In every run, wherever the trace holds the write of \<open>quit\<close> or the call of
  \<open>engine.wait()\<close>, a line starting with \<open>bestmove\<close> was dequeued before it; the wait
  moreover comes after the write of \<open>quit\<close>, and after it the main thread writes, prints
  and dequeues nothing more. The return code of the process is not inspected: two runs
  that differ only in the code the engine exits with go through the same states.
\<close>

theorem shutdown_only_after_bestmove:
  "(trace (run sched (init out eof rc ok)) = pre @ e # post
      \<and> (e = Write (bytes_of ''quit'' @ [0x0A]) \<or> e = Wait)
    \<longrightarrow> (\<exists>l \<in> set (gets pre). startswith l (str_of ''bestmove''))
      \<and> (e = Wait \<longrightarrow> Write (bytes_of ''quit'' @ [0x0A]) \<in> set pre \<and> main_io post = []))
   \<and> run sched (init out eof (Some rc1) ok)
       = (run sched (init out eof (Some rc2) ok))\<lparr>exit_status := Some rc1\<rparr>"
proof (rule conjI)
  show "trace (run sched (init out eof rc ok)) = pre @ e # post
      \<and> (e = Write (bytes_of ''quit'' @ [0x0A]) \<or> e = Wait)
    \<longrightarrow> (\<exists>l \<in> set (gets pre). startswith l (str_of ''bestmove''))
      \<and> (e = Wait \<longrightarrow> Write (bytes_of ''quit'' @ [0x0A]) \<in> set pre \<and> main_io post = [])"
  proof
    assume a: "trace (run sched (init out eof rc ok)) = pre @ e # post
      \<and> (e = Write (bytes_of ''quit'' @ [0x0A]) \<or> e = Wait)"
    then have "trace (run sched (init out eof rc ok)) = pre @ e # post"
      and "e = Write (bytes_of ''quit'' @ [0x0A]) \<or> e = Wait" by blast+
    from shutdown_order [OF main_inv_reachable this]
    show "(\<exists>l \<in> set (gets pre). startswith l (str_of ''bestmove''))
      \<and> (e = Wait \<longrightarrow> Write (bytes_of ''quit'' @ [0x0A]) \<in> set pre \<and> main_io post = [])"
      unfolding is_best_def .
  qed
next
  have "init out eof (Some rc1) ok = (init out eof (Some rc2) ok)\<lparr>exit_status := Some rc1\<rparr>"
    by (simp add: init_def)
  moreover have "exit_status (init out eof (Some rc2) ok) = Some rc2" by (simp add: init_def)
  ultimately show "run sched (init out eof (Some rc1) ok)
       = (run sched (init out eof (Some rc2) ok))\<lparr>exit_status := Some rc1\<rparr>"
    by (simp add: run_exit_status)
qed

theorem shutdown_only_after_bestmove_witness:
  "(\<exists>l \<in> set (gets (butlast (trace (run (Drainer # replicate 18 Main)
        (init (bytes_of ''bestmove a2a3'' @ [0x0A]) True (Some 0) utf8_console))))).
      startswith l (str_of ''bestmove''))
   \<and> Write (bytes_of ''quit'' @ [0x0A]) \<in> set (butlast (trace (run (Drainer # replicate 18 Main)
        (init (bytes_of ''bestmove a2a3'' @ [0x0A]) True (Some 0) utf8_console))))"
proof -
  let ?s = "run (Drainer # replicate 18 Main) (init (bytes_of ''bestmove a2a3'' @ [0x0A]) True (Some 0) utf8_console)"
  have h: "trace ?s = butlast (trace ?s) @ Wait # []" by code_simp
  from shutdown_only_after_bestmove
    [where sched = "Drainer # replicate 18 Main" and pre = "butlast (trace ?s)" and e = Wait
       and post = "[]", THEN conjunct1] h
  show ?thesis by blast
qed

section \<open>The output line queue\<close>




section \<open>A line that is not valid UTF-8\<close>

text \<open>
  C10 (as amended). When the drainer reads a raw line that is not valid UTF-8, the strict
  decode raises: the line is consumed, nothing is enqueued, and the drainer is dead
  without having closed the stream. From then on, under every schedule, it stays dead,
  no further byte of the output is read, no line is enqueued, the stream is not closed,
  and the queue only loses lines at its head: the lines enqueued before the bad one stay
  there for the waiter. Once the queue is empty with the waiter in its loop, every
  further pass is a poll that times out, for ever. In a run of the script a dead drainer
  has never closed the stream. The counterexample to the claim as first stated is an
  output with a bestmove line before the undecodable one: after the drainer has died
  the queue holds that line, and the waiter dequeues it and the script runs to its end.
\<close>

theorem undecodable_line_stops_drainer:
  "(reader s = Draining \<and> \<not> terminated (pc s)
      \<and> readline (pipe s) (pipe_eof s) = Some (line, rest) \<and> line \<noteq> []
      \<and> utf8_decode line = Inl e
    \<longrightarrow> enqueue_output_step s =
          s\<lparr>pipe := rest, reader := Raised e, trace := trace s @ [Readline line]\<rparr>)
   \<and> (reader s = Raised e
    \<longrightarrow> reader (run sched s) = Raised e \<and> pipe (run sched s) = pipe s
        \<and> reads (trace (run sched s)) = reads (trace s)
        \<and> puts (trace (run sched s)) = puts (trace s)
        \<and> (Close \<in> set (trace (run sched s))) = (Close \<in> set (trace s))
        \<and> (\<exists>k. q (run sched s) = drop k (q s)))
   \<and> (reader s = Raised e \<and> pc s = WaitLoop \<and> q s = []
    \<longrightarrow> run sched s =
          s\<lparr>trace := trace s @ replicate (length (filter (\<lambda>t. t = Main) sched)) Empty\<rparr>)
   \<and> (reader (run sched (init out eof rc ok)) = Raised e
    \<longrightarrow> Close \<notin> set (trace (run sched (init out eof rc ok))))"
proof (intro conjI impI)
  assume "reader s = Draining \<and> \<not> terminated (pc s)
      \<and> readline (pipe s) (pipe_eof s) = Some (line, rest) \<and> line \<noteq> []
      \<and> utf8_decode line = Inl e"
  then show "enqueue_output_step s =
          s\<lparr>pipe := rest, reader := Raised e, trace := trace s @ [Readline line]\<rparr>"
    by (simp add: enqueue_output_step_def decoded_def)
next
  assume "reader s = Raised e"
  from raised_run [OF this, of sched]
  show "reader (run sched s) = Raised e" "pipe (run sched s) = pipe s"
    "reads (trace (run sched s)) = reads (trace s)"
    "puts (trace (run sched s)) = puts (trace s)"
    "(Close \<in> set (trace (run sched s))) = (Close \<in> set (trace s))"
    "\<exists>k. q (run sched s) = drop k (q s)"
    by blast+
next
  assume "reader s = Raised e \<and> pc s = WaitLoop \<and> q s = []"
  then show "run sched s =
          s\<lparr>trace := trace s @ replicate (length (filter (\<lambda>t. t = Main) sched)) Empty\<rparr>"
    by (intro raised_polls) simp_all
next
  assume "reader (run sched (init out eof rc ok)) = Raised e"
  with drainer_inv_reachable [of out sched eof rc]
  show "Close \<notin> set (trace (run sched (init out eof rc ok)))"
    by (simp add: drainer_inv_def)
qed

theorem undecodable_line_stops_drainer_witness:
  "enqueue_output_step (init [0xFF, 0x0A, 0x6F, 0x6B, 0x0A] True None utf8_console) =
     (init [0xFF, 0x0A, 0x6F, 0x6B, 0x0A] True None utf8_console)
       \<lparr>pipe := [0x6F, 0x6B, 0x0A], reader := Raised UnicodeDecodeError,
         trace := [Readline [0xFF, 0x0A]]\<rparr>
   \<and> run [Main, Drainer, Main]
       (run (Drainer # replicate 13 Main) (init [0xFF, 0x0A, 0x6F, 0x6B, 0x0A] True None utf8_console)) =
     (run (Drainer # replicate 13 Main) (init [0xFF, 0x0A, 0x6F, 0x6B, 0x0A] True None utf8_console))
       \<lparr>trace := trace (run (Drainer # replicate 13 Main)
                    (init [0xFF, 0x0A, 0x6F, 0x6B, 0x0A] True None utf8_console)) @ [Empty, Empty]\<rparr>"
proof -
  let ?i = "init [0xFF, 0x0A, 0x6F, 0x6B, 0x0A] True None utf8_console"
  let ?s = "run (Drainer # replicate 13 Main) ?i"
  have h1: "reader ?i = Draining \<and> \<not> terminated (pc ?i)
      \<and> readline (pipe ?i) (pipe_eof ?i) = Some ([0xFF, 0x0A], [0x6F, 0x6B, 0x0A])
      \<and> [0xFF, 0x0A] \<noteq> ([] :: byte list)
      \<and> utf8_decode [0xFF, 0x0A] = Inl UnicodeDecodeError"
    by code_simp
  have h3: "reader ?s = Raised UnicodeDecodeError \<and> pc ?s = WaitLoop \<and> q ?s = []"
    by code_simp
  have a: "enqueue_output_step ?i =
      ?i\<lparr>pipe := [0x6F, 0x6B, 0x0A], reader := Raised UnicodeDecodeError,
         trace := trace ?i @ [Readline [0xFF, 0x0A]]\<rparr>"
    using undecodable_line_stops_drainer
      [where s = ?i and line = "[0xFF, 0x0A]" and rest = "[0x6F, 0x6B, 0x0A]"
         and e = UnicodeDecodeError] h1 by blast
  have b: "run [Main, Drainer, Main] ?s =
      ?s\<lparr>trace := trace ?s @ replicate (length (filter (\<lambda>t. t = Main) [Main, Drainer, Main])) Empty\<rparr>"
    using undecodable_line_stops_drainer
      [where s = ?s and e = UnicodeDecodeError and sched = "[Main, Drainer, Main]"] h3 by blast
  have t0: "trace ?i = []" by (simp add: init_def)
  from a b show ?thesis by (simp add: t0 del: run_simps step_simps)
qed

theorem bestmove_before_undecodable_counterexample:
  "reader (run [Drainer, Drainer]
      (init (bytes_of ''bestmove a2a3'' @ [0x0A, 0xFF, 0x0A]) True (Some 0) utf8_console))
     = Raised UnicodeDecodeError
   \<and> q (run [Drainer, Drainer]
      (init (bytes_of ''bestmove a2a3'' @ [0x0A, 0xFF, 0x0A]) True (Some 0) utf8_console))
     = [str_of ''bestmove a2a3'']
   \<and> pc (run (Drainer # Drainer # replicate 18 Main)
      (init (bytes_of ''bestmove a2a3'' @ [0x0A, 0xFF, 0x0A]) True (Some 0) utf8_console))
     = Exited"
  by code_simp

end
